theory Spec2Isabelle
  imports Main "HOL-Library.Code_Target_Nat"
begin

section \<open>A growable array over raw memory: \<open>advanced-vector/vector.h\<close>\<close>

text \<open>
  The header defines two class templates: \<open>RawMemory<T>\<close>, the owner of a block of
  uninitialised slots, and \<open>Vector<T>\<close>, a \<open>RawMemory<T>\<close> together with the number of
  constructed elements. The model below follows the header member by member.

  \<^item> A block of raw memory is a list of slots; a slot is either uninitialised or holds
    a constructed object. The empty list stands for the null pointer and for a block too
    small to hold one slot: neither has a slot to read or write, and the one member that
    asks whether the pointer is null, \<open>~Vector\<close>, then destroys \<open>size_\<close> elements, which
    are none wherever a container with such a block can be reached.
  \<^item> A pointer or iterator into a container is its offset from \<open>begin()\<close>.
  \<^item> Every container owns its block exclusively, so containers are values and a member
    function takes the objects it touches and returns them updated.
  \<^item> \<open>size_t\<close> has 64 bits. Counts are natural numbers and the two products of the
    header are taken modulo \<open>2^64\<close>: the byte count \<open>n * sizeof(T)\<close> that \<open>Allocate\<close>
    passes to \<open>operator new\<close>, and the doubling \<open>size_ * 2\<close>. A request for \<open>n\<close> slots
    whose byte count wraps is served with the smaller block the wrapped count asks for,
    while \<open>capacity_\<close> becomes \<open>n\<close>. No object has more than \<open>PTRDIFF_MAX\<close> bytes:
    \<open>operator new\<close> throws \<open>std::bad_alloc\<close> on a larger request.
  \<^item> An exception is a result \<open>Throw\<close> that carries the state left behind once the stack
    is unwound; undefined behaviour (a read or write outside the block, the use of an
    uninitialised slot as an object) is the result \<open>UB\<close>.
  \<^item> The element type \<open>T\<close> is a parameter: \<open>sizeof(T)\<close>, the two traits the header asks
    about, the value of \<open>T()\<close>, and the state a moved-from object is left in. Which operations of
    \<open>T\<close> throw is decided by a schedule carried in the state, one entry for each
    operation that is allowed to throw; each completed operation on an element is
    written to a log, so that theorems can say which operations ran and in which order.
\<close>

subsection \<open>Results, events and the element type\<close>

datatype exn = bad_alloc | element_failure

datatype ('r, 's) outcome = Ok 'r 's | Throw exn 's | UB

datatype 'a slot = Raw | Obj 'a

datatype 'a event =
    Alloc nat
  | Free nat
  | ValueCtor 'a
  | ArgsCtor 'a
  | CopyCtor 'a
  | MoveCtor 'a
  | CopyAssign 'a
  | MoveAssign 'a
  | Dtor 'a

record 'a elem_type =
  size_of :: nat
  nothrow_move_constructible :: bool
  copy_constructible :: bool
  value_init :: 'a
  moved_from :: "'a \<Rightarrow> 'a"

record 'a world =
  schedule :: "bool list"
  log :: "'a event list"

text \<open>An operation that cannot throw is only logged.\<close>

definition record_ev :: "'a event \<Rightarrow> 'a world \<Rightarrow> 'a world" where
  "record_ev ev w = w\<lparr>log := log w @ [ev]\<rparr>"

text \<open>
  An operation that may throw takes the next entry of the schedule: \<open>True\<close> makes it
  throw (nothing is logged), \<open>False\<close> lets it complete. An exhausted schedule lets
  every operation complete.
\<close>

definition attempt :: "'a event \<Rightarrow> 'a world \<Rightarrow> bool \<times> 'a world" where
  "attempt ev w =
     (case schedule w of
        [] \<Rightarrow> (True, record_ev ev w)
      | b # bs \<Rightarrow>
          if b then (False, w\<lparr>schedule := bs\<rparr>)
          else (True, record_ev ev (w\<lparr>schedule := bs\<rparr>)))"

text \<open>
  The expression \<open>T(std::forward<Args>(args)...)\<close>: the arguments are an lvalue of \<open>T\<close>
  (copy construction), an rvalue of \<open>T\<close> (move construction), or anything else. In each
  case the value of the new object is known. A move constructor that is \<open>noexcept\<close>
  does not consult the schedule.
\<close>

datatype 'a args = ByCopy 'a | ByMove 'a | Args 'a

fun arg_value :: "'a args \<Rightarrow> 'a" where
  "arg_value (ByCopy x) = x"
| "arg_value (ByMove x) = x"
| "arg_value (Args x) = x"

fun ctor_event :: "'a args \<Rightarrow> 'a event" where
  "ctor_event (ByCopy x) = CopyCtor x"
| "ctor_event (ByMove x) = MoveCtor x"
| "ctor_event (Args x) = ArgsCtor x"

fun may_throw :: "'a elem_type \<Rightarrow> 'a args \<Rightarrow> bool" where
  "may_throw T (ByMove x) = (\<not> nothrow_move_constructible T)"
| "may_throw T a = True"

definition construct :: "'a elem_type \<Rightarrow> 'a args \<Rightarrow> 'a world \<Rightarrow> ('a, 'a world) outcome" where
  "construct T a w =
     (if may_throw T a then
        (case attempt (ctor_event a) w of
           (True, w') \<Rightarrow> Ok (arg_value a) w'
         | (False, w') \<Rightarrow> Throw element_failure w')
      else Ok (arg_value a) (record_ev (ctor_event a) w))"

subsection \<open>Slots\<close>

text \<open>The object at an offset of a block, if the offset is in the block and the slot is constructed.\<close>

definition slot_at :: "'a slot list \<Rightarrow> nat \<Rightarrow> 'a option" where
  "slot_at b i = (if i < length b then (case b ! i of Obj x \<Rightarrow> Some x | Raw \<Rightarrow> None) else None)"

text \<open>Placement \<open>new (p) T(args)\<close> at offset \<open>p\<close> of a block.\<close>

definition construct_at :: "'a elem_type \<Rightarrow> 'a args \<Rightarrow> 'a slot list \<Rightarrow> nat \<Rightarrow> 'a world
    \<Rightarrow> (unit, 'a slot list \<times> 'a world) outcome" where
  "construct_at T a b p w =
     (if length b \<le> p then UB
      else (case construct T a w of
              Ok x w' \<Rightarrow> Ok () (b[p := Obj x], w')
            | Throw e w' \<Rightarrow> Throw e (b, w')
            | UB \<Rightarrow> UB))"

text \<open>\<open>std::destroy_n(p, n)\<close>; \<open>std::destroy_at(p)\<close> is \<open>destroy_n b p 1\<close>.\<close>

fun destroy_n :: "'a slot list \<Rightarrow> nat \<Rightarrow> nat \<Rightarrow> 'a world \<Rightarrow> (unit, 'a slot list \<times> 'a world) outcome" where
  "destroy_n b p 0 w = Ok () (b, w)"
| "destroy_n b p (Suc n) w =
     (case slot_at b p of
        None \<Rightarrow> UB
      | Some x \<Rightarrow> destroy_n (b[p := Raw]) (Suc p) n (record_ev (Dtor x) w))"

subsection \<open>The algorithms of \<open><memory>\<close> and \<open><algorithm>\<close> the header calls\<close>

text \<open>
  Each \<open>uninitialized_*\<close> algorithm is a loop in a \<open>try\<close> block; the handler destroys the
  objects constructed so far and rethrows. The loop returns, when it throws, the offset
  \<open>cur\<close> it had reached. The standard leaves the order of that destruction open; here it
  is first to last.
\<close>

fun value_construct_loop :: "'a elem_type \<Rightarrow> 'a slot list \<Rightarrow> nat \<Rightarrow> nat \<Rightarrow> 'a world
    \<Rightarrow> (unit, 'a slot list \<times> nat \<times> 'a world) outcome" where
  "value_construct_loop T b p 0 w = Ok () (b, p, w)"
| "value_construct_loop T b p (Suc n) w =
     (if length b \<le> p then UB
      else (case attempt (ValueCtor (value_init T)) w of
              (False, w') \<Rightarrow> Throw element_failure (b, p, w')
            | (True, w') \<Rightarrow> value_construct_loop T (b[p := Obj (value_init T)]) (Suc p) n w'))"

definition uninitialized_value_construct_n :: "'a elem_type \<Rightarrow> 'a slot list \<Rightarrow> nat \<Rightarrow> nat \<Rightarrow> 'a world
    \<Rightarrow> (unit, 'a slot list \<times> 'a world) outcome" where
  "uninitialized_value_construct_n T b p n w =
     (case value_construct_loop T b p n w of
        Ok _ (b', _, w') \<Rightarrow> Ok () (b', w')
      | Throw e (b', cur, w') \<Rightarrow>
          (case destroy_n b' p (cur - p) w' of
             Ok _ (b'', w'') \<Rightarrow> Throw e (b'', w'')
           | _ \<Rightarrow> UB)
      | UB \<Rightarrow> UB)"

fun copy_loop :: "'a slot list \<Rightarrow> nat \<Rightarrow> nat \<Rightarrow> 'a slot list \<Rightarrow> nat \<Rightarrow> 'a world
    \<Rightarrow> (unit, 'a slot list \<times> nat \<times> 'a world) outcome" where
  "copy_loop src s 0 dst d w = Ok () (dst, d, w)"
| "copy_loop src s (Suc n) dst d w =
     (case slot_at src s of
        None \<Rightarrow> UB
      | Some x \<Rightarrow>
          if length dst \<le> d then UB
          else (case attempt (CopyCtor x) w of
                  (False, w') \<Rightarrow> Throw element_failure (dst, d, w')
                | (True, w') \<Rightarrow> copy_loop src (Suc s) n (dst[d := Obj x]) (Suc d) w'))"

text \<open>\<open>std::uninitialized_copy_n(src + s, n, dst + d)\<close>: the source block is only read.\<close>

definition uninitialized_copy_n :: "'a slot list \<Rightarrow> nat \<Rightarrow> nat \<Rightarrow> 'a slot list \<Rightarrow> nat \<Rightarrow> 'a world
    \<Rightarrow> (unit, 'a slot list \<times> 'a world) outcome" where
  "uninitialized_copy_n src s n dst d w =
     (case copy_loop src s n dst d w of
        Ok _ (dst', _, w') \<Rightarrow> Ok () (dst', w')
      | Throw e (dst', cur, w') \<Rightarrow>
          (case destroy_n dst' d (cur - d) w' of
             Ok _ (dst'', w'') \<Rightarrow> Throw e (dst'', w'')
           | _ \<Rightarrow> UB)
      | UB \<Rightarrow> UB)"

fun move_loop :: "'a elem_type \<Rightarrow> 'a slot list \<Rightarrow> nat \<Rightarrow> nat \<Rightarrow> 'a slot list \<Rightarrow> nat \<Rightarrow> 'a world
    \<Rightarrow> (unit, 'a slot list \<times> 'a slot list \<times> nat \<times> 'a world) outcome" where
  "move_loop T src s 0 dst d w = Ok () (src, dst, d, w)"
| "move_loop T src s (Suc n) dst d w =
     (case slot_at src s of
        None \<Rightarrow> UB
      | Some x \<Rightarrow>
          if length dst \<le> d then UB
          else (case construct T (ByMove x) w of
                  Throw e w' \<Rightarrow> Throw e (src, dst, d, w')
                | Ok y w' \<Rightarrow>
                    move_loop T (src[s := Obj (moved_from T x)]) (Suc s) n (dst[d := Obj y]) (Suc d) w'
                | UB \<Rightarrow> UB))"

text \<open>
  \<open>std::uninitialized_move_n(src + s, n, dst + d)\<close>: every source object that was moved
  is left in its moved-from state, also when a later move throws.
\<close>

definition uninitialized_move_n :: "'a elem_type \<Rightarrow> 'a slot list \<Rightarrow> nat \<Rightarrow> nat \<Rightarrow> 'a slot list \<Rightarrow> nat
    \<Rightarrow> 'a world \<Rightarrow> (unit, 'a slot list \<times> 'a slot list \<times> 'a world) outcome" where
  "uninitialized_move_n T src s n dst d w =
     (case move_loop T src s n dst d w of
        Ok _ (src', dst', _, w') \<Rightarrow> Ok () (src', dst', w')
      | Throw e (src', dst', cur, w') \<Rightarrow>
          (case destroy_n dst' d (cur - d) w' of
             Ok _ (dst'', w'') \<Rightarrow> Throw e (src', dst'', w'')
           | _ \<Rightarrow> UB)
      | UB \<Rightarrow> UB)"

text \<open>
  \<open>std::uninitialized_copy(first, last, d)\<close> and \<open>std::uninitialized_move(first, last, d)\<close>
  run while \<open>first != last\<close>: a range with \<open>last\<close> before \<open>first\<close> is undefined.
\<close>

definition uninitialized_copy :: "'a slot list \<Rightarrow> nat \<Rightarrow> nat \<Rightarrow> 'a slot list \<Rightarrow> nat \<Rightarrow> 'a world
    \<Rightarrow> (unit, 'a slot list \<times> 'a world) outcome" where
  "uninitialized_copy src first last_p dst d w =
     (if last_p < first then UB else uninitialized_copy_n src first (last_p - first) dst d w)"

definition uninitialized_move :: "'a elem_type \<Rightarrow> 'a slot list \<Rightarrow> nat \<Rightarrow> nat \<Rightarrow> 'a slot list \<Rightarrow> nat
    \<Rightarrow> 'a world \<Rightarrow> (unit, 'a slot list \<times> 'a slot list \<times> 'a world) outcome" where
  "uninitialized_move T src first last_p dst d w =
     (if last_p < first then UB else uninitialized_move_n T src first (last_p - first) dst d w)"

text \<open>
  The assignment \<open>dst[d] = src[s]\<close> between two blocks: both slots hold objects. A copy
  assignment that throws leaves its target as it was.
\<close>

definition copy_assign_at :: "'a slot list \<Rightarrow> nat \<Rightarrow> 'a slot list \<Rightarrow> nat \<Rightarrow> 'a world
    \<Rightarrow> (unit, 'a slot list \<times> 'a world) outcome" where
  "copy_assign_at src s dst d w =
     (case slot_at src s of
        None \<Rightarrow> UB
      | Some x \<Rightarrow>
          (case slot_at dst d of
             None \<Rightarrow> UB
           | Some _ \<Rightarrow>
               (case attempt (CopyAssign x) w of
                  (False, w') \<Rightarrow> Throw element_failure (dst, w')
                | (True, w') \<Rightarrow> Ok () (dst[d := Obj x], w'))))"

text \<open>The loop \<open>for (size_t i = 0; i != n; ++i) data_[i] = rhs.data_[i];\<close>, from \<open>i\<close> on.\<close>

fun assign_loop :: "'a slot list \<Rightarrow> 'a slot list \<Rightarrow> nat \<Rightarrow> nat \<Rightarrow> 'a world
    \<Rightarrow> (unit, 'a slot list \<times> 'a world) outcome" where
  "assign_loop src dst i 0 w = Ok () (dst, w)"
| "assign_loop src dst i (Suc n) w =
     (case copy_assign_at src i dst i w of
        Ok _ (dst', w') \<Rightarrow> assign_loop src dst' (Suc i) n w'
      | r \<Rightarrow> r)"

text \<open>
  The move assignment \<open>b[d] = std::move(b[s])\<close> inside one block: the target takes the
  value, the source is left moved-from.
\<close>

definition move_assign_at :: "'a elem_type \<Rightarrow> 'a slot list \<Rightarrow> nat \<Rightarrow> nat \<Rightarrow> 'a world
    \<Rightarrow> (unit, 'a slot list \<times> 'a world) outcome" where
  "move_assign_at T b s d w =
     (case slot_at b s of
        None \<Rightarrow> UB
      | Some x \<Rightarrow>
          (case slot_at b d of
             None \<Rightarrow> UB
           | Some _ \<Rightarrow>
               (case attempt (MoveAssign x) w of
                  (False, w') \<Rightarrow> Throw element_failure (b, w')
                | (True, w') \<Rightarrow> Ok () (b[s := Obj (moved_from T x), d := Obj x], w'))))"

text \<open>
  \<open>std::move(first, first + n, d)\<close>:
  \<open>for (; first != last; ++d, ++first) *d = std::move(*first);\<close>
\<close>

fun move_n :: "'a elem_type \<Rightarrow> 'a slot list \<Rightarrow> nat \<Rightarrow> nat \<Rightarrow> nat \<Rightarrow> 'a world
    \<Rightarrow> (unit, 'a slot list \<times> 'a world) outcome" where
  "move_n T b first 0 d w = Ok () (b, w)"
| "move_n T b first (Suc n) d w =
     (case move_assign_at T b first d w of
        Ok _ (b', w') \<Rightarrow> move_n T b' (Suc first) n (Suc d) w'
      | r \<Rightarrow> r)"

definition std_move :: "'a elem_type \<Rightarrow> 'a slot list \<Rightarrow> nat \<Rightarrow> nat \<Rightarrow> nat \<Rightarrow> 'a world
    \<Rightarrow> (unit, 'a slot list \<times> 'a world) outcome" where
  "std_move T b first last_p d w =
     (if last_p < first then UB else move_n T b first (last_p - first) d w)"

text \<open>
  \<open>std::move_backward(last - n, last, d_last)\<close>:
  \<open>while (first != last) *(--d_last) = std::move(*(--last));\<close>
\<close>

fun move_backward_n :: "'a elem_type \<Rightarrow> 'a slot list \<Rightarrow> nat \<Rightarrow> nat \<Rightarrow> nat \<Rightarrow> 'a world
    \<Rightarrow> (unit, 'a slot list \<times> 'a world) outcome" where
  "move_backward_n T b last_p 0 d_last w = Ok () (b, w)"
| "move_backward_n T b last_p (Suc n) d_last w =
     (if last_p = 0 \<or> d_last = 0 then UB
      else (case move_assign_at T b (last_p - 1) (d_last - 1) w of
              Ok _ (b', w') \<Rightarrow> move_backward_n T b' (last_p - 1) n (d_last - 1) w'
            | r \<Rightarrow> r))"

definition move_backward :: "'a elem_type \<Rightarrow> 'a slot list \<Rightarrow> nat \<Rightarrow> nat \<Rightarrow> nat \<Rightarrow> 'a world
    \<Rightarrow> (unit, 'a slot list \<times> 'a world) outcome" where
  "move_backward T b first last_p d_last w =
     (if last_p < first then UB else move_backward_n T b last_p (last_p - first) d_last w)"

text \<open>
  The move construction \<open>new (b + d) T(std::move(b[s]))\<close> inside one block.
\<close>

definition move_construct_at :: "'a elem_type \<Rightarrow> 'a slot list \<Rightarrow> nat \<Rightarrow> nat \<Rightarrow> 'a world
    \<Rightarrow> (unit, 'a slot list \<times> 'a world) outcome" where
  "move_construct_at T b s d w =
     (case slot_at b s of
        None \<Rightarrow> UB
      | Some x \<Rightarrow>
          if length b \<le> d then UB
          else (case construct T (ByMove x) w of
                  Ok y w' \<Rightarrow> Ok () (b[s := Obj (moved_from T x), d := Obj y], w')
                | Throw e w' \<Rightarrow> Throw e (b, w')
                | UB \<Rightarrow> UB))"

text \<open>The move assignment \<open>b[d] = std::move(temp)\<close> from a local object.\<close>

definition move_assign_from :: "'a \<Rightarrow> 'a slot list \<Rightarrow> nat \<Rightarrow> 'a world
    \<Rightarrow> (unit, 'a slot list \<times> 'a world) outcome" where
  "move_assign_from temp b d w =
     (case slot_at b d of
        None \<Rightarrow> UB
      | Some _ \<Rightarrow>
          (case attempt (MoveAssign temp) w of
             (False, w') \<Rightarrow> Throw element_failure (b, w')
           | (True, w') \<Rightarrow> Ok () (b[d := Obj temp], w')))"

subsection \<open>\<open>RawMemory<T>\<close>\<close>

text \<open>
  The fields \<open>buffer_\<close> and \<open>capacity_\<close> (a name cannot end in an underscore here, so the
  members are written \<open>m_buffer\<close>, \<open>m_capacity\<close>, \<open>m_data\<close>, \<open>m_size\<close>). \<open>m_buffer\<close> is the
  block \<open>buffer_\<close> points to, \<open>[]\<close> for \<open>nullptr\<close>. The two \<open>assert\<close>s of the class are
  compiled out of a release build and are not modelled.
\<close>

record 'a RawMemory =
  m_buffer :: "'a slot list"
  m_capacity :: nat

definition SIZE_MOD :: nat where
  "SIZE_MOD = 2 ^ 64"

definition PTRDIFF_MAX :: nat where
  "PTRDIFF_MAX = 2 ^ 63 - 1"

text \<open>
  \<open>n != 0 ? static_cast<T*>(operator new(n * sizeof(T))) : nullptr\<close>. The product is
  computed in \<open>size_t\<close>. A request for more than \<open>PTRDIFF_MAX\<close> bytes throws; any other
  request consults the schedule, and the block \<open>operator new\<close> returns has the bytes it
  was asked for, hence \<open>bytes / sizeof(T)\<close> whole slots: \<open>n\<close> slots when the product did
  not wrap, fewer when it did. (\<open>sizeof(T)\<close> is at least \<open>1\<close> for every type.)
\<close>

definition Allocate :: "'a elem_type \<Rightarrow> nat \<Rightarrow> 'a world \<Rightarrow> ('a slot list, 'a world) outcome" where
  "Allocate T n w =
     (if n \<noteq> 0 then
        (let bytes = (n * size_of T) mod SIZE_MOD in
         if PTRDIFF_MAX < bytes then Throw bad_alloc w
         else (case attempt (Alloc n) w of
                 (True, w') \<Rightarrow> Ok (replicate (bytes div size_of T) Raw) w'
               | (False, w') \<Rightarrow> Throw bad_alloc w'))
      else Ok [] w)"

text \<open>
  \<open>operator delete(buf)\<close>: the call is logged with the number of slots of the block,
  \<open>0\<close> for the null pointer, on which it does nothing.
\<close>

definition Deallocate :: "'a slot list \<Rightarrow> 'a world \<Rightarrow> 'a world" where
  "Deallocate buf w = record_ev (Free (length buf)) w"

definition RawMemory_default :: "'a RawMemory" where
  "RawMemory_default = \<lparr>m_buffer = [], m_capacity = 0\<rparr>"

definition RawMemory_new :: "'a elem_type \<Rightarrow> nat \<Rightarrow> 'a world \<Rightarrow> ('a RawMemory, 'a world) outcome" where
  "RawMemory_new T capacity w =
     (case Allocate T capacity w of
        Ok b w' \<Rightarrow> Ok \<lparr>m_buffer = b, m_capacity = capacity\<rparr> w'
      | Throw e w' \<Rightarrow> Throw e w'
      | UB \<Rightarrow> UB)"

text \<open>The move constructor returns the new object and what is left of \<open>other\<close>.\<close>

definition RawMemory_move :: "'a RawMemory \<Rightarrow> 'a RawMemory \<times> 'a RawMemory" where
  "RawMemory_move other =
     (\<lparr>m_buffer = m_buffer other, m_capacity = m_capacity other\<rparr>,
      other\<lparr>m_buffer := [], m_capacity := 0\<rparr>)"

text \<open>
  The move assignment overwrites \<open>buffer_\<close> without releasing the block it pointed to.
\<close>

definition RawMemory_move_assign :: "'a RawMemory \<Rightarrow> 'a RawMemory \<Rightarrow> 'a RawMemory \<times> 'a RawMemory" where
  "RawMemory_move_assign self rhs =
     (self\<lparr>m_buffer := m_buffer rhs, m_capacity := m_capacity rhs\<rparr>,
      rhs\<lparr>m_capacity := 0, m_buffer := []\<rparr>)"

definition RawMemory_Swap :: "'a RawMemory \<Rightarrow> 'a RawMemory \<Rightarrow> 'a RawMemory \<times> 'a RawMemory" where
  "RawMemory_Swap self other =
     (self\<lparr>m_buffer := m_buffer other, m_capacity := m_capacity other\<rparr>,
      other\<lparr>m_buffer := m_buffer self, m_capacity := m_capacity self\<rparr>)"

definition RawMemory_dtor :: "'a RawMemory \<Rightarrow> 'a world \<Rightarrow> 'a world" where
  "RawMemory_dtor m w = Deallocate (m_buffer m) w"

subsection \<open>\<open>Vector<T>\<close>\<close>

record 'a Vector =
  m_data :: "'a RawMemory"
  m_size :: nat

text \<open>The block \<open>data_\<close> points to, after an algorithm has written to it.\<close>

definition set_buffer :: "'a Vector \<Rightarrow> 'a slot list \<Rightarrow> 'a Vector" where
  "set_buffer v b = v\<lparr>m_data := (m_data v)\<lparr>m_buffer := b\<rparr>\<rparr>"

definition Size :: "'a Vector \<Rightarrow> nat" where
  "Size v = m_size v"

definition Capacity :: "'a Vector \<Rightarrow> nat" where
  "Capacity v = m_capacity (m_data v)"

text \<open>\<open>operator[]\<close>: \<open>None\<close> where the access is undefined.\<close>

definition at :: "'a Vector \<Rightarrow> nat \<Rightarrow> 'a option" where
  "at v index = slot_at (m_buffer (m_data v)) index"

definition Vector_default :: "'a Vector" where
  "Vector_default = \<lparr>m_data = RawMemory_default, m_size = 0\<rparr>"

text \<open>
  \<open>explicit Vector(size_t size)\<close>. When the construction of an element throws, the
  algorithm has destroyed the elements it made, the member \<open>data_\<close> is destructed, and
  no container exists.
\<close>

definition Vector_sized :: "'a elem_type \<Rightarrow> nat \<Rightarrow> 'a world \<Rightarrow> ('a Vector, 'a world) outcome" where
  "Vector_sized T n w =
     (case RawMemory_new T n w of
        Throw e w1 \<Rightarrow> Throw e w1
      | UB \<Rightarrow> UB
      | Ok d w1 \<Rightarrow>
          (case uninitialized_value_construct_n T (m_buffer d) 0 n w1 of
             Ok _ (b, w2) \<Rightarrow> Ok \<lparr>m_data = d\<lparr>m_buffer := b\<rparr>, m_size = n\<rparr> w2
           | Throw e (b, w2) \<Rightarrow> Throw e (RawMemory_dtor (d\<lparr>m_buffer := b\<rparr>) w2)
           | UB \<Rightarrow> UB))"

text \<open>\<open>Vector(const Vector& other)\<close>\<close>

definition Vector_copy :: "'a elem_type \<Rightarrow> 'a Vector \<Rightarrow> 'a world \<Rightarrow> ('a Vector, 'a world) outcome" where
  "Vector_copy T other w =
     (case RawMemory_new T (m_size other) w of
        Throw e w1 \<Rightarrow> Throw e w1
      | UB \<Rightarrow> UB
      | Ok d w1 \<Rightarrow>
          (case uninitialized_copy_n (m_buffer (m_data other)) 0 (m_size other) (m_buffer d) 0 w1 of
             Ok _ (b, w2) \<Rightarrow> Ok \<lparr>m_data = d\<lparr>m_buffer := b\<rparr>, m_size = m_size other\<rparr> w2
           | Throw e (b, w2) \<Rightarrow> Throw e (RawMemory_dtor (d\<lparr>m_buffer := b\<rparr>) w2)
           | UB \<Rightarrow> UB))"

text \<open>
  \<open>Vector(Vector&& other)\<close>: \<open>data_(std::move(other.data_)), size_(std::move(other.size_))\<close>.
  Moving a \<open>size_t\<close> copies it, so \<open>other.size_\<close> keeps its value. The result is the new
  container and what is left of \<open>other\<close>.
\<close>

definition Vector_move :: "'a Vector \<Rightarrow> 'a Vector \<times> 'a Vector" where
  "Vector_move other =
     (case RawMemory_move (m_data other) of
        (d, od) \<Rightarrow> (\<lparr>m_data = d, m_size = m_size other\<rparr>, other\<lparr>m_data := od\<rparr>))"

text \<open>\<open>~Vector()\<close>, followed by the destructor of the member \<open>data_\<close>.\<close>

definition Vector_dtor :: "'a Vector \<Rightarrow> 'a world \<Rightarrow> (unit, 'a world) outcome" where
  "Vector_dtor v w =
     (if m_buffer (m_data v) \<noteq> [] then
        (case destroy_n (m_buffer (m_data v)) 0 (m_size v) w of
           Ok _ (b, w') \<Rightarrow> Ok () (RawMemory_dtor ((m_data v)\<lparr>m_buffer := b\<rparr>) w')
         | _ \<Rightarrow> UB)
      else Ok () (RawMemory_dtor (m_data v) w))"

definition Swap :: "'a Vector \<Rightarrow> 'a Vector \<Rightarrow> 'a Vector \<times> 'a Vector" where
  "Swap self other =
     (case RawMemory_Swap (m_data self) (m_data other) of
        (d, od) \<Rightarrow> (self\<lparr>m_data := d, m_size := m_size other\<rparr>,
                    other\<lparr>m_data := od, m_size := m_size self\<rparr>))"

text \<open>
  \<open>Vector& operator=(const Vector& rhs)\<close>. The flag \<open>same\<close> is the comparison
  \<open>this == &rhs\<close>; \<open>rhs\<close> is only read. In the first case the local \<open>rhs_copy\<close>, which
  holds the old contents after the swap, is destructed on leaving the block.
\<close>

definition copy_assign :: "'a elem_type \<Rightarrow> bool \<Rightarrow> 'a Vector \<Rightarrow> 'a Vector \<Rightarrow> 'a world
    \<Rightarrow> (unit, 'a Vector \<times> 'a world) outcome" where
  "copy_assign T same self rhs w =
     (if \<not> same then
        if m_size rhs > Capacity self then
          (case Vector_copy T rhs w of
             Throw e w1 \<Rightarrow> Throw e (self, w1)
           | UB \<Rightarrow> UB
           | Ok rhs_copy w1 \<Rightarrow>
               (case Swap self rhs_copy of
                  (self', rhs_copy') \<Rightarrow>
                    (case Vector_dtor rhs_copy' w1 of
                       Ok _ w2 \<Rightarrow> Ok () (self', w2)
                     | _ \<Rightarrow> UB)))
        else if m_size rhs \<ge> m_size self then
          (case assign_loop (m_buffer (m_data rhs)) (m_buffer (m_data self)) 0 (m_size self) w of
             Throw e (b, w1) \<Rightarrow> Throw e (set_buffer self b, w1)
           | UB \<Rightarrow> UB
           | Ok _ (b, w1) \<Rightarrow>
               (case uninitialized_copy_n (m_buffer (m_data rhs)) 0 (m_size rhs - m_size self)
                       b (m_size self) w1 of
                  Throw e (b', w2) \<Rightarrow> Throw e (set_buffer self b', w2)
                | UB \<Rightarrow> UB
                | Ok _ (b', w2) \<Rightarrow> Ok () ((set_buffer self b')\<lparr>m_size := m_size rhs\<rparr>, w2)))
        else
          (case assign_loop (m_buffer (m_data rhs)) (m_buffer (m_data self)) 0 (m_size rhs) w of
             Throw e (b, w1) \<Rightarrow> Throw e (set_buffer self b, w1)
           | UB \<Rightarrow> UB
           | Ok _ (b, w1) \<Rightarrow>
               (case destroy_n b (m_size rhs) (m_size self - m_size rhs) w1 of
                  Ok _ (b', w2) \<Rightarrow> Ok () ((set_buffer self b')\<lparr>m_size := m_size rhs\<rparr>, w2)
                | _ \<Rightarrow> UB))
      else Ok () (self, w))"

text \<open>
  \<open>Vector& operator=(Vector&& rhs)\<close>: the result is \<open>*this\<close> and what is left of \<open>rhs\<close>.
  The elements \<open>*this\<close> held are neither destroyed nor released.
\<close>

definition move_assign :: "bool \<Rightarrow> 'a Vector \<Rightarrow> 'a Vector \<Rightarrow> 'a Vector \<times> 'a Vector" where
  "move_assign same self rhs =
     (if \<not> same then
        (case RawMemory_move_assign (m_data self) (m_data rhs) of
           (d, rd) \<Rightarrow> (self\<lparr>m_data := d, m_size := m_size rhs\<rparr>, rhs\<lparr>m_data := rd\<rparr>))
      else (self, rhs))"

text \<open>
  The \<open>if constexpr\<close> block of \<open>Reserve\<close> and \<open>Realloc\<close> (on the \<open>_n\<close> algorithms) and of
  \<open>Emplace\<close> (on the range algorithms): the result is the source block, the target block
  and the state.
\<close>

definition relocate_n :: "'a elem_type \<Rightarrow> 'a slot list \<Rightarrow> nat \<Rightarrow> nat \<Rightarrow> 'a slot list \<Rightarrow> nat \<Rightarrow> 'a world
    \<Rightarrow> (unit, 'a slot list \<times> 'a slot list \<times> 'a world) outcome" where
  "relocate_n T src s n dst d w =
     (if nothrow_move_constructible T \<or> \<not> copy_constructible T then
        uninitialized_move_n T src s n dst d w
      else
        (case uninitialized_copy_n src s n dst d w of
           Ok _ (dst', w') \<Rightarrow> Ok () (src, dst', w')
         | Throw e (dst', w') \<Rightarrow> Throw e (src, dst', w')
         | UB \<Rightarrow> UB))"

definition relocate :: "'a elem_type \<Rightarrow> 'a slot list \<Rightarrow> nat \<Rightarrow> nat \<Rightarrow> 'a slot list \<Rightarrow> nat \<Rightarrow> 'a world
    \<Rightarrow> (unit, 'a slot list \<times> 'a slot list \<times> 'a world) outcome" where
  "relocate T src first last_p dst d w =
     (if nothrow_move_constructible T \<or> \<not> copy_constructible T then
        uninitialized_move T src first last_p dst d w
      else
        (case uninitialized_copy src first last_p dst d w of
           Ok _ (dst', w') \<Rightarrow> Ok () (src, dst', w')
         | Throw e (dst', w') \<Rightarrow> Throw e (src, dst', w')
         | UB \<Rightarrow> UB))"

text \<open>
  After the relocation both \<open>Reserve\<close> and \<open>Realloc\<close> destroy the old elements and swap
  the blocks; the old block is released when the local \<open>RawMemory\<close> goes out of scope.
\<close>

definition Reserve :: "'a elem_type \<Rightarrow> nat \<Rightarrow> 'a Vector \<Rightarrow> 'a world
    \<Rightarrow> (unit, 'a Vector \<times> 'a world) outcome" where
  "Reserve T new_capacity v w =
     (if new_capacity \<le> Capacity v then Ok () (v, w)
      else
        (case RawMemory_new T new_capacity w of
           Throw e w1 \<Rightarrow> Throw e (v, w1)
         | UB \<Rightarrow> UB
         | Ok new_data w1 \<Rightarrow>
             (case relocate_n T (m_buffer (m_data v)) 0 (m_size v) (m_buffer new_data) 0 w1 of
                Throw e (src, dst, w2) \<Rightarrow>
                  Throw e (set_buffer v src, RawMemory_dtor (new_data\<lparr>m_buffer := dst\<rparr>) w2)
              | UB \<Rightarrow> UB
              | Ok _ (src, dst, w2) \<Rightarrow>
                  (case destroy_n src 0 (m_size v) w2 of
                     Ok _ (src', w3) \<Rightarrow>
                       (case RawMemory_Swap ((m_data v)\<lparr>m_buffer := src'\<rparr>)
                               (new_data\<lparr>m_buffer := dst\<rparr>) of
                          (d, nd) \<Rightarrow> Ok () (v\<lparr>m_data := d\<rparr>, RawMemory_dtor nd w3))
                   | _ \<Rightarrow> UB))))"

text \<open>
  \<open>void Realloc(RawMemory<T>& new_data)\<close>: the result also holds \<open>new_data\<close>, which the
  caller passed by reference and destructs afterwards.
\<close>

definition Realloc :: "'a elem_type \<Rightarrow> 'a RawMemory \<Rightarrow> 'a Vector \<Rightarrow> 'a world
    \<Rightarrow> (unit, 'a Vector \<times> 'a RawMemory \<times> 'a world) outcome" where
  "Realloc T new_data v w =
     (case relocate_n T (m_buffer (m_data v)) 0 (m_size v) (m_buffer new_data) 0 w of
        Throw e (src, dst, w1) \<Rightarrow> Throw e (set_buffer v src, new_data\<lparr>m_buffer := dst\<rparr>, w1)
      | UB \<Rightarrow> UB
      | Ok _ (src, dst, w1) \<Rightarrow>
          (case destroy_n src 0 (m_size v) w1 of
             Ok _ (src', w2) \<Rightarrow>
               (case RawMemory_Swap ((m_data v)\<lparr>m_buffer := src'\<rparr>) (new_data\<lparr>m_buffer := dst\<rparr>) of
                  (d, nd) \<Rightarrow> Ok () (v\<lparr>m_data := d\<rparr>, nd, w2))
           | _ \<Rightarrow> UB))"

definition NewExpendedMem :: "'a elem_type \<Rightarrow> 'a Vector \<Rightarrow> 'a world \<Rightarrow> ('a RawMemory, 'a world) outcome" where
  "NewExpendedMem T v w =
     RawMemory_new T (if m_size v = 0 then 1 else (m_size v * 2) mod SIZE_MOD) w"

text \<open>
  \<open>T& EmplaceBack(Args&&... args)\<close>: the result is the offset of the new element. An
  exception after the allocation unwinds through the destructor of \<open>new_memory\<close>, which
  releases the block and destroys nothing.
\<close>

definition EmplaceBack :: "'a elem_type \<Rightarrow> 'a args \<Rightarrow> 'a Vector \<Rightarrow> 'a world
    \<Rightarrow> (nat, 'a Vector \<times> 'a world) outcome" where
  "EmplaceBack T a v w =
     (if m_size v = Capacity v then
        (case NewExpendedMem T v w of
           Throw e w1 \<Rightarrow> Throw e (v, w1)
         | UB \<Rightarrow> UB
         | Ok new_memory w1 \<Rightarrow>
             (case construct_at T a (m_buffer new_memory) (m_size v) w1 of
                Throw e (b, w2) \<Rightarrow> Throw e (v, RawMemory_dtor (new_memory\<lparr>m_buffer := b\<rparr>) w2)
              | UB \<Rightarrow> UB
              | Ok _ (b, w2) \<Rightarrow>
                  (case Realloc T (new_memory\<lparr>m_buffer := b\<rparr>) v w2 of
                     Throw e (v', nm, w3) \<Rightarrow> Throw e (v', RawMemory_dtor nm w3)
                   | UB \<Rightarrow> UB
                   | Ok _ (v', nm, w3) \<Rightarrow>
                       Ok (m_size v) (v'\<lparr>m_size := m_size v' + 1\<rparr>, RawMemory_dtor nm w3))))
      else
        (case construct_at T a (m_buffer (m_data v)) (m_size v) w of
           Throw e (b, w1) \<Rightarrow> Throw e (set_buffer v b, w1)
         | UB \<Rightarrow> UB
         | Ok _ (b, w1) \<Rightarrow> Ok (m_size v) ((set_buffer v b)\<lparr>m_size := m_size v + 1\<rparr>, w1)))"

text \<open>\<open>void PushBack(const T& value)\<close>\<close>

definition PushBack :: "'a elem_type \<Rightarrow> 'a \<Rightarrow> 'a Vector \<Rightarrow> 'a world
    \<Rightarrow> (unit, 'a Vector \<times> 'a world) outcome" where
  "PushBack T val v w =
     (if m_size v = Capacity v then
        (case NewExpendedMem T v w of
           Throw e w1 \<Rightarrow> Throw e (v, w1)
         | UB \<Rightarrow> UB
         | Ok new_memory w1 \<Rightarrow>
             (case construct_at T (ByCopy val) (m_buffer new_memory) (m_size v) w1 of
                Throw e (b, w2) \<Rightarrow> Throw e (v, RawMemory_dtor (new_memory\<lparr>m_buffer := b\<rparr>) w2)
              | UB \<Rightarrow> UB
              | Ok _ (b, w2) \<Rightarrow>
                  (case Realloc T (new_memory\<lparr>m_buffer := b\<rparr>) v w2 of
                     Throw e (v', nm, w3) \<Rightarrow> Throw e (v', RawMemory_dtor nm w3)
                   | UB \<Rightarrow> UB
                   | Ok _ (v', nm, w3) \<Rightarrow>
                       Ok () (v'\<lparr>m_size := m_size v' + 1\<rparr>, RawMemory_dtor nm w3))))
      else
        (case construct_at T (ByCopy val) (m_buffer (m_data v)) (m_size v) w of
           Throw e (b, w1) \<Rightarrow> Throw e (set_buffer v b, w1)
         | UB \<Rightarrow> UB
         | Ok _ (b, w1) \<Rightarrow> Ok () ((set_buffer v b)\<lparr>m_size := m_size v + 1\<rparr>, w1)))"

text \<open>
  \<open>void PushBack(T&& value)\<close>. The argument is an object of the caller; what the move
  leaves in it is not part of the result.
\<close>

definition PushBack_rvalue :: "'a elem_type \<Rightarrow> 'a \<Rightarrow> 'a Vector \<Rightarrow> 'a world
    \<Rightarrow> (unit, 'a Vector \<times> 'a world) outcome" where
  "PushBack_rvalue T val v w =
     (if m_size v = Capacity v then
        (case NewExpendedMem T v w of
           Throw e w1 \<Rightarrow> Throw e (v, w1)
         | UB \<Rightarrow> UB
         | Ok new_memory w1 \<Rightarrow>
             (case construct_at T (ByMove val) (m_buffer new_memory) (m_size v) w1 of
                Throw e (b, w2) \<Rightarrow> Throw e (v, RawMemory_dtor (new_memory\<lparr>m_buffer := b\<rparr>) w2)
              | UB \<Rightarrow> UB
              | Ok _ (b, w2) \<Rightarrow>
                  (case Realloc T (new_memory\<lparr>m_buffer := b\<rparr>) v w2 of
                     Throw e (v', nm, w3) \<Rightarrow> Throw e (v', RawMemory_dtor nm w3)
                   | UB \<Rightarrow> UB
                   | Ok _ (v', nm, w3) \<Rightarrow>
                       Ok () (v'\<lparr>m_size := m_size v' + 1\<rparr>, RawMemory_dtor nm w3))))
      else
        (case construct_at T (ByMove val) (m_buffer (m_data v)) (m_size v) w of
           Throw e (b, w1) \<Rightarrow> Throw e (set_buffer v b, w1)
         | UB \<Rightarrow> UB
         | Ok _ (b, w1) \<Rightarrow> Ok () ((set_buffer v b)\<lparr>m_size := m_size v + 1\<rparr>, w1)))"

text \<open>\<open>void PopBack() noexcept\<close>: on an empty container \<open>size_ - 1\<close> is not an element.\<close>

definition PopBack :: "'a Vector \<Rightarrow> 'a world \<Rightarrow> (unit, 'a Vector \<times> 'a world) outcome" where
  "PopBack v w =
     (if m_size v = 0 then UB
      else (case destroy_n (m_buffer (m_data v)) (m_size v - 1) 1 w of
              Ok _ (b, w') \<Rightarrow> Ok () ((set_buffer v b)\<lparr>m_size := m_size v - 1\<rparr>, w')
            | _ \<Rightarrow> UB))"

definition Resize :: "'a elem_type \<Rightarrow> nat \<Rightarrow> 'a Vector \<Rightarrow> 'a world
    \<Rightarrow> (unit, 'a Vector \<times> 'a world) outcome" where
  "Resize T new_size v w =
     (if new_size = m_size v then Ok () (v, w)
      else if new_size > m_size v then
        (case Reserve T new_size v w of
           Throw e s \<Rightarrow> Throw e s
         | UB \<Rightarrow> UB
         | Ok _ (v1, w1) \<Rightarrow>
             (case uninitialized_value_construct_n T (m_buffer (m_data v1)) (m_size v1)
                     (new_size - m_size v1) w1 of
                Throw e (b, w2) \<Rightarrow> Throw e (set_buffer v1 b, w2)
              | UB \<Rightarrow> UB
              | Ok _ (b, w2) \<Rightarrow> Ok () ((set_buffer v1 b)\<lparr>m_size := new_size\<rparr>, w2)))
      else
        (case destroy_n (m_buffer (m_data v)) new_size (m_size v - new_size) w of
           Ok _ (b, w1) \<Rightarrow> Ok () ((set_buffer v b)\<lparr>m_size := new_size\<rparr>, w1)
         | _ \<Rightarrow> UB))"

text \<open>
  \<open>iterator Emplace(const_iterator pos, Args&&... args)\<close>: \<open>pos\<close> and the result are
  offsets from \<open>begin()\<close>. Without growth the local \<open>temp\<close> is destructed at the end of
  its block, moved-from if the block completed and as constructed if an exception
  unwinds through it.
\<close>

definition Emplace :: "'a elem_type \<Rightarrow> nat \<Rightarrow> 'a args \<Rightarrow> 'a Vector \<Rightarrow> 'a world
    \<Rightarrow> (nat, 'a Vector \<times> 'a world) outcome" where
  "Emplace T pos a v w =
     (if pos = m_size v then EmplaceBack T a v w
      else if m_size v = Capacity v then
        (case NewExpendedMem T v w of
           Throw e w1 \<Rightarrow> Throw e (v, w1)
         | UB \<Rightarrow> UB
         | Ok new_data w1 \<Rightarrow>
             (case construct_at T a (m_buffer new_data) pos w1 of
                Throw e (b, w2) \<Rightarrow> Throw e (v, RawMemory_dtor (new_data\<lparr>m_buffer := b\<rparr>) w2)
              | UB \<Rightarrow> UB
              | Ok _ (b, w2) \<Rightarrow>
                  (case relocate T (m_buffer (m_data v)) 0 pos b 0 w2 of
                     Throw e (src, dst, w3) \<Rightarrow>
                       Throw e (set_buffer v src, RawMemory_dtor (new_data\<lparr>m_buffer := dst\<rparr>) w3)
                   | UB \<Rightarrow> UB
                   | Ok _ (src, dst, w3) \<Rightarrow>
                       (case relocate T src pos (m_size v) dst (pos + 1) w3 of
                          Throw e (src', dst', w4) \<Rightarrow>
                            Throw e (set_buffer v src', RawMemory_dtor (new_data\<lparr>m_buffer := dst'\<rparr>) w4)
                        | UB \<Rightarrow> UB
                        | Ok _ (src', dst', w4) \<Rightarrow>
                            (case destroy_n src' 0 (m_size v) w4 of
                               Ok _ (src'', w5) \<Rightarrow>
                                 (case RawMemory_Swap ((m_data v)\<lparr>m_buffer := src''\<rparr>)
                                         (new_data\<lparr>m_buffer := dst'\<rparr>) of
                                    (d, nd) \<Rightarrow>
                                      Ok pos (v\<lparr>m_data := d, m_size := m_size v + 1\<rparr>,
                                              RawMemory_dtor nd w5))
                             | _ \<Rightarrow> UB)))))
      else
        (case construct T a w of
           Throw e w1 \<Rightarrow> Throw e (v, w1)
         | UB \<Rightarrow> UB
         | Ok temp w1 \<Rightarrow>
             if m_size v = 0 then UB
             else
               (case move_construct_at T (m_buffer (m_data v)) (m_size v - 1) (m_size v) w1 of
                  Throw e (b, w2) \<Rightarrow> Throw e (set_buffer v b, record_ev (Dtor temp) w2)
                | UB \<Rightarrow> UB
                | Ok _ (b, w2) \<Rightarrow>
                    (case move_backward T b pos (m_size v - 1) (m_size v) w2 of
                       Throw e (b', w3) \<Rightarrow> Throw e (set_buffer v b', record_ev (Dtor temp) w3)
                     | UB \<Rightarrow> UB
                     | Ok _ (b', w3) \<Rightarrow>
                         (case move_assign_from temp b' pos w3 of
                            Throw e (b'', w4) \<Rightarrow>
                              Throw e (set_buffer v b'', record_ev (Dtor temp) w4)
                          | UB \<Rightarrow> UB
                          | Ok _ (b'', w4) \<Rightarrow>
                              Ok pos ((set_buffer v b'')\<lparr>m_size := m_size v + 1\<rparr>,
                                      record_ev (Dtor (moved_from T temp)) w4))))))"

text \<open>\<open>iterator Insert(const_iterator pos, const T& value)\<close>\<close>

definition Insert :: "'a elem_type \<Rightarrow> nat \<Rightarrow> 'a \<Rightarrow> 'a Vector \<Rightarrow> 'a world
    \<Rightarrow> (nat, 'a Vector \<times> 'a world) outcome" where
  "Insert T pos val v w = Emplace T pos (ByCopy val) v w"

text \<open>\<open>iterator Insert(const_iterator pos, T&& value)\<close>\<close>

definition Insert_rvalue :: "'a elem_type \<Rightarrow> nat \<Rightarrow> 'a \<Rightarrow> 'a Vector \<Rightarrow> 'a world
    \<Rightarrow> (nat, 'a Vector \<times> 'a world) outcome" where
  "Insert_rvalue T pos val v w = Emplace T pos (ByMove val) v w"

text \<open>\<open>iterator Erase(const_iterator pos)\<close>\<close>

definition Erase :: "'a elem_type \<Rightarrow> nat \<Rightarrow> 'a Vector \<Rightarrow> 'a world
    \<Rightarrow> (nat, 'a Vector \<times> 'a world) outcome" where
  "Erase T pos v w =
     (case std_move T (m_buffer (m_data v)) (pos + 1) (m_size v) pos w of
        Throw e (b, w1) \<Rightarrow> Throw e (set_buffer v b, w1)
      | UB \<Rightarrow> UB
      | Ok _ (b, w1) \<Rightarrow>
          if m_size v = 0 then UB
          else (case destroy_n b (m_size v - 1) 1 w1 of
                  Ok _ (b', w2) \<Rightarrow> Ok pos ((set_buffer v b')\<lparr>m_size := m_size v - 1\<rparr>, w2)
                | _ \<Rightarrow> UB))"

subsection \<open>What a container holds\<close>

text \<open>
  \<open>holds v xs\<close>: the members of the container are what the class maintains and its
  elements are \<open>xs\<close>. The block has \<open>capacity_\<close> slots, \<open>size_\<close> is the length of \<open>xs\<close> and
  at most \<open>capacity_\<close>, the slots \<open>[0, size_)\<close> hold the objects \<open>xs\<close> in order and the
  slots \<open>[size_, capacity_)\<close> are uninitialised.
\<close>

definition holds :: "'a Vector \<Rightarrow> 'a list \<Rightarrow> bool" where
  "holds v xs \<longleftrightarrow>
     m_size v = length xs \<and> length xs \<le> m_capacity (m_data v) \<and>
     m_buffer (m_data v) = map Obj xs @ replicate (m_capacity (m_data v) - length xs) Raw"

text \<open>
  \<open>fits T n\<close>: the byte count of \<open>n\<close> slots does not wrap. \<open>allocatable T n\<close>: a block
  of \<open>n\<close> slots can exist, it has at most \<open>PTRDIFF_MAX\<close> bytes. Both say that \<open>sizeof(T)\<close>
  is positive, as it is for every type.

  \<open>representable T v\<close>: the block of the container is one the program can have, and so is
  a block of one slot: \<open>capacity_ * sizeof(T)\<close> and \<open>sizeof(T)\<close> are at most
  \<open>PTRDIFF_MAX\<close>. This is true of every container that exists; the model has to say it,
  because its counts are natural numbers.

  \<open>wellformed T v xs\<close>: both together.
\<close>

definition fits :: "'a elem_type \<Rightarrow> nat \<Rightarrow> bool" where
  "fits T n \<longleftrightarrow> 0 < size_of T \<and> n * size_of T < SIZE_MOD"

definition allocatable :: "'a elem_type \<Rightarrow> nat \<Rightarrow> bool" where
  "allocatable T n \<longleftrightarrow> 0 < size_of T \<and> n * size_of T \<le> PTRDIFF_MAX"

definition representable :: "'a elem_type \<Rightarrow> 'a Vector \<Rightarrow> bool" where
  "representable T v \<longleftrightarrow> allocatable T (max 1 (m_capacity (m_data v)))"

definition wellformed :: "'a elem_type \<Rightarrow> 'a Vector \<Rightarrow> 'a list \<Rightarrow> bool" where
  "wellformed T v xs \<longleftrightarrow> holds v xs \<and> representable T v"

text \<open>The objects of the first \<open>size_\<close> slots, as a traversal from \<open>begin()\<close> to \<open>end()\<close> reads them.\<close>

fun objs :: "'a slot list \<Rightarrow> 'a list" where
  "objs [] = []"
| "objs (Obj x # b) = x # objs b"
| "objs (Raw # b) = objs b"

definition elems :: "'a Vector \<Rightarrow> 'a list" where
  "elems v = objs (take (m_size v) (m_buffer (m_data v)))"

definition invariant :: "'a Vector \<Rightarrow> bool" where
  "invariant v \<longleftrightarrow> holds v (elems v)"

text \<open>The state after the events \<open>l\<close> have been logged.\<close>

definition logged :: "'a event list \<Rightarrow> 'a world \<Rightarrow> 'a world" where
  "logged l w = w\<lparr>log := log w @ l\<rparr>"

text \<open>The events a call added to the log.\<close>

definition added :: "'a world \<Rightarrow> 'a world \<Rightarrow> 'a event list" where
  "added w w' = drop (length (log w)) (log w')"

text \<open>
  What a relocation does to one element: the construction that ran, and the object left
  in the old slot.
\<close>

definition relocation_event :: "'a elem_type \<Rightarrow> 'a \<Rightarrow> 'a event" where
  "relocation_event T x =
     (if nothrow_move_constructible T \<or> \<not> copy_constructible T then MoveCtor x else CopyCtor x)"

definition left_behind :: "'a elem_type \<Rightarrow> 'a \<Rightarrow> 'a" where
  "left_behind T x =
     (if nothrow_move_constructible T \<or> \<not> copy_constructible T then moved_from T x else x)"

subsection \<open>Element types and scenarios used in the examples\<close>

text \<open>\<open>int\<close>: every operation is \<open>noexcept\<close>, \<open>int()\<close> is \<open>0\<close>, a move leaves the value.\<close>

definition int_type :: "int elem_type" where
  "int_type = \<lparr>size_of = 4, nothrow_move_constructible = True, copy_constructible = True,
                value_init = 0, moved_from = (\<lambda>x. x)\<rparr>"

text \<open>
  A class around an \<open>int\<close> with a copy constructor and a move constructor that is not
  \<open>noexcept\<close>; a moved-from object holds \<open>0\<close>.
\<close>

definition throwing_type :: "int elem_type" where
  "throwing_type = \<lparr>size_of = 4, nothrow_move_constructible = False, copy_constructible = True,
                     value_init = 0, moved_from = (\<lambda>x. 0)\<rparr>"

text \<open>
  A class around an \<open>int\<close> that cannot be copied and whose move constructor is not
  \<open>noexcept\<close>; a moved-from object holds \<open>0\<close>.
\<close>

definition move_only_type :: "int elem_type" where
  "move_only_type = \<lparr>size_of = 4, nothrow_move_constructible = False, copy_constructible = False,
                      value_init = 0, moved_from = (\<lambda>x. 0)\<rparr>"

text \<open>A state in which nothing throws and nothing has been logged.\<close>

definition quiet :: "'a world" where
  "quiet = \<lparr>schedule = [], log = []\<rparr>"

text \<open>A container in the state the class maintains, with elements \<open>xs\<close> and capacity \<open>c\<close>.\<close>

definition vector_of :: "'a list \<Rightarrow> nat \<Rightarrow> 'a Vector" where
  "vector_of xs c =
     \<lparr>m_data = \<lparr>m_buffer = map Obj xs @ replicate (c - length xs) Raw, m_capacity = c\<rparr>,
      m_size = length xs\<rparr>"

text \<open>\<open>for (const T& x : xs) v.PushBack(x);\<close>\<close>

fun push_all :: "'a elem_type \<Rightarrow> 'a list \<Rightarrow> 'a Vector \<Rightarrow> 'a world
    \<Rightarrow> (unit, 'a Vector \<times> 'a world) outcome" where
  "push_all T [] v w = Ok () (v, w)"
| "push_all T (x # xs) v w =
     (case PushBack T x v w of
        Ok _ (v', w') \<Rightarrow> push_all T xs v' w'
      | r \<Rightarrow> r)"

text \<open>
  The logs a growing append can leave when it throws and the relocation copies: nothing
  (the allocation failed), the allocation and its release (the construction of the new
  element failed), or the allocation, the new element, \<open>k\<close> copies, their destruction
  and the release (copy \<open>k\<close> of the relocation failed).
\<close>

definition failed_growth_logs :: "'a args \<Rightarrow> 'a list \<Rightarrow> 'a event list list" where
  "failed_growth_logs a xs =
     (let c = max 1 (length xs * 2) in
      [] # [Alloc c, Free c] #
      map (\<lambda>k. [Alloc c, ctor_event a] @ map CopyCtor (take k xs) @ map Dtor (take k xs) @ [Free c])
        [0..<length xs])"

text \<open>
  What a relocation of the elements \<open>xs\<close> leaves when it throws: for each number \<open>k\<close> of
  elements relocated before the construction that threw, the elements now in the old
  block (the first \<open>k\<close> as the relocation left them) and the log of the relocation (\<open>k\<close>
  constructions in the new block, then the destruction of these \<open>k\<close> objects).
\<close>

definition abandoned_relocations :: "'a elem_type \<Rightarrow> 'a list \<Rightarrow> ('a list \<times> 'a event list) list" where
  "abandoned_relocations T xs =
     map (\<lambda>k. (map (left_behind T) (take k xs) @ drop k xs,
               map (relocation_event T) (take k xs) @ map Dtor (take k xs)))
       [0..<length xs]"

section \<open>Facts about the model\<close>

subsection \<open>Facts about the primitives\<close>

lemma slot_at_Obj [simp]: "slot_at (A @ Obj x # B) (length A) = Some x"
  by (simp add: slot_at_def)

lemma slot_at_Raw [simp]: "slot_at (A @ Raw # B) (length A) = None"
  by (simp add: slot_at_def)

lemma slot_at_Suc [simp]: "slot_at (A @ y # B) (Suc (length A)) = slot_at B 0"
  by (simp add: slot_at_def nth_append)

lemma slot_at_0 [simp]: "slot_at (Obj x # B) 0 = Some x"
  by (simp add: slot_at_def)

lemma update_Suc_length [simp]: "(A @ y # z # B)[Suc (length A) := u] = A @ y # u # B"
  by (simp add: list_update_append)

lemma log_record_ev [simp]: "log (record_ev ev w) = log w @ [ev]"
  by (simp add: record_ev_def)

lemma attempt_cases:
  obtains (ok) w' where "attempt ev w = (True, w')" "log w' = log w @ [ev]"
  | (fail) w' where "attempt ev w = (False, w')" "log w' = log w"
  by (cases "schedule w"; cases "hd (schedule w)") (auto simp: attempt_def)

lemma attempt_True: "attempt ev w = (True, w') \<Longrightarrow> log w' = log w @ [ev]"
  by (cases rule: attempt_cases [of ev w]) auto

lemma attempt_False: "attempt ev w = (False, w') \<Longrightarrow> log w' = log w"
  by (cases rule: attempt_cases [of ev w]) auto

lemma construct_Ok:
  "construct T a w = Ok x w' \<Longrightarrow> x = arg_value a \<and> log w' = log w @ [ctor_event a]"
  by (auto simp: construct_def split: if_splits prod.splits bool.splits dest: attempt_True)

lemma construct_Throw:
  "construct T a w = Throw e w' \<Longrightarrow> e = element_failure \<and> log w' = log w \<and> may_throw T a"
  by (auto simp: construct_def split: if_splits prod.splits bool.splits dest: attempt_False)

lemma construct_not_UB [simp]: "construct T a w \<noteq> UB"
  by (auto simp: construct_def split: if_splits prod.splits bool.splits)

lemma construct_at_Ok:
  "construct_at T a (A @ y # B) (length A) w = Ok r (b', w') \<Longrightarrow>
     b' = A @ Obj (arg_value a) # B \<and> log w' = log w @ [ctor_event a]"
  by (auto simp: construct_at_def split: outcome.splits dest: construct_Ok)

lemma construct_at_Throw:
  "construct_at T a b p w = Throw e (b', w') \<Longrightarrow>
     b' = b \<and> e = element_failure \<and> log w' = log w"
  by (auto simp: construct_at_def split: outcome.splits if_splits dest: construct_Throw)

lemma PTRDIFF_MAX_less: "PTRDIFF_MAX < SIZE_MOD" "2 * PTRDIFF_MAX < SIZE_MOD"
  by (simp_all add: PTRDIFF_MAX_def SIZE_MOD_def)

lemma allocatable_fits: "allocatable T n \<Longrightarrow> fits T n"
  using PTRDIFF_MAX_less(1) by (auto simp: allocatable_def fits_def)

lemma allocatable_double: "allocatable T n \<Longrightarrow> fits T (n * 2)"
proof -
  assume a: "allocatable T n"
  then have "n * 2 * size_of T = 2 * (n * size_of T)" by simp
  also from a have "\<dots> \<le> 2 * PTRDIFF_MAX" by (simp add: allocatable_def)
  also note PTRDIFF_MAX_less(2)
  finally show ?thesis using a by (simp add: fits_def allocatable_def)
qed

lemma allocatable_mono: "allocatable T n \<Longrightarrow> m \<le> n \<Longrightarrow> allocatable T m"
proof -
  assume a: "allocatable T n" and "m \<le> n"
  from \<open>m \<le> n\<close> have "m * size_of T \<le> n * size_of T" by (rule mult_le_mono1)
  also from a have "\<dots> \<le> PTRDIFF_MAX" by (simp add: allocatable_def)
  finally show ?thesis using a by (simp add: allocatable_def)
qed

lemma fits_mono: "fits T n \<Longrightarrow> m \<le> n \<Longrightarrow> fits T m"
proof -
  assume a: "fits T n" and "m \<le> n"
  from \<open>m \<le> n\<close> have "m * size_of T \<le> n * size_of T" by (rule mult_le_mono1)
  also from a have "\<dots> < SIZE_MOD" by (simp add: fits_def)
  finally show ?thesis using a by (simp add: fits_def)
qed

lemma fits_less: "fits T n \<Longrightarrow> n < SIZE_MOD"
proof -
  assume a: "fits T n"
  then have "1 \<le> size_of T" by (simp add: fits_def)
  then have "n * 1 \<le> n * size_of T" by (rule mult_le_mono2)
  also from a have "\<dots> < SIZE_MOD" by (simp add: fits_def)
  finally show ?thesis by simp
qed

lemma Allocate_Ok:
  "Allocate T n w = Ok b w' \<Longrightarrow> fits T n \<Longrightarrow>
     b = replicate n Raw \<and> log w' = log w @ (if n = 0 then [] else [Alloc n])
       \<and> allocatable T n"
  by (auto simp: Allocate_def Let_def fits_def allocatable_def
      split: if_splits prod.splits bool.splits dest: attempt_True)

lemma Allocate_Throw: "Allocate T n w = Throw e w' \<Longrightarrow> e = bad_alloc \<and> log w' = log w"
  by (auto simp: Allocate_def Let_def split: if_splits prod.splits bool.splits dest: attempt_False)

lemma Allocate_not_UB [simp]: "Allocate T n w \<noteq> UB"
  by (auto simp: Allocate_def Let_def split: if_splits prod.splits bool.splits)

lemma RawMemory_new_Ok:
  "RawMemory_new T n w = Ok m w' \<Longrightarrow> fits T n \<Longrightarrow>
     m = \<lparr>m_buffer = replicate n Raw, m_capacity = n\<rparr>
       \<and> log w' = log w @ (if n = 0 then [] else [Alloc n])
       \<and> allocatable T n"
  by (auto simp: RawMemory_new_def split: outcome.splits dest: Allocate_Ok)

lemma RawMemory_new_Throw:
  "RawMemory_new T n w = Throw e w' \<Longrightarrow> e = bad_alloc \<and> log w' = log w"
  by (auto simp: RawMemory_new_def split: outcome.splits dest: Allocate_Throw)

lemma RawMemory_new_not_UB [simp]: "RawMemory_new T n w \<noteq> UB"
  by (auto simp: RawMemory_new_def split: outcome.splits)

lemma log_Deallocate [simp]: "log (Deallocate b w) = log w @ [Free (length b)]"
  by (simp add: Deallocate_def)

subsection \<open>Facts about the algorithms\<close>

lemma destroy_n_objs:
  "destroy_n (A @ map Obj xs @ B) (length A) (length xs) w =
     Ok () (A @ replicate (length xs) Raw @ B, w\<lparr>log := log w @ map Dtor xs\<rparr>)"
proof (induction xs arbitrary: A w)
  case Nil
  show ?case by simp
next
  case (Cons x xs)
  have "destroy_n (A @ map Obj (x # xs) @ B) (length A) (length (x # xs)) w =
        destroy_n ((A @ [Raw]) @ map Obj xs @ B) (length (A @ [Raw])) (length xs) (record_ev (Dtor x) w)"
    by simp
  also have "\<dots> = Ok () ((A @ [Raw]) @ replicate (length xs) Raw @ B,
                 (record_ev (Dtor x) w)\<lparr>log := log (record_ev (Dtor x) w) @ map Dtor xs\<rparr>)"
    by (rule Cons.IH)
  finally show ?case by (simp add: record_ev_def)
qed

lemma copy_loop_Ok:
  "copy_loop (S1 @ map Obj xs @ S2) (length S1) (length xs) (D1 @ ys @ D2) (length D1) w
      = Ok r (dst', cur, w') \<Longrightarrow> length ys = length xs \<Longrightarrow>
   dst' = D1 @ map Obj xs @ D2 \<and> log w' = log w @ map CopyCtor xs"
proof (induction xs arbitrary: S1 D1 ys w)
  case Nil
  then show ?case by simp
next
  case (Cons x xs)
  then obtain y ys' where ys: "ys = y # ys'" and len: "length ys' = length xs"
    by (cases ys) auto
  from Cons.prems(1) obtain w1 where a: "attempt (CopyCtor x) w = (True, w1)"
    and rest: "copy_loop ((S1 @ [Obj x]) @ map Obj xs @ S2) (length (S1 @ [Obj x]))
         (length xs) ((D1 @ [Obj x]) @ ys' @ D2) (length (D1 @ [Obj x])) w1 = Ok r (dst', cur, w')"
    by (auto simp: ys split: prod.splits bool.splits)
  from Cons.IH [OF rest len] attempt_True [OF a] show ?case by simp
qed

lemma copy_loop_Throw:
  "copy_loop (S1 @ map Obj xs @ S2) (length S1) (length xs) (D1 @ ys @ D2) (length D1) w
      = Throw e (dst', cur, w') \<Longrightarrow> length ys = length xs \<Longrightarrow>
   \<exists>k<length xs. dst' = D1 @ map Obj (take k xs) @ drop k ys @ D2 \<and> cur = length D1 + k
     \<and> e = element_failure \<and> log w' = log w @ map CopyCtor (take k xs)"
proof (induction xs arbitrary: S1 D1 ys w)
  case Nil
  then show ?case by simp
next
  case (Cons x xs)
  then obtain y ys' where ys: "ys = y # ys'" and len: "length ys' = length xs"
    by (cases ys) auto
  show ?case
  proof (cases rule: attempt_cases [of "CopyCtor x" w])
    case (fail w1)
    with Cons.prems(1) have "dst' = D1 @ ys @ D2 \<and> cur = length D1 \<and> e = element_failure \<and> w' = w1"
      by (simp add: ys)
    with fail show ?thesis by (intro exI [of _ 0]) simp
  next
    case (ok w1)
    with Cons.prems(1)
    have rest: "copy_loop ((S1 @ [Obj x]) @ map Obj xs @ S2) (length (S1 @ [Obj x]))
         (length xs) ((D1 @ [Obj x]) @ ys' @ D2) (length (D1 @ [Obj x])) w1 = Throw e (dst', cur, w')"
      by (simp add: ys)
    from Cons.IH [OF rest len] obtain k where "k < length xs"
      "dst' = (D1 @ [Obj x]) @ map Obj (take k xs) @ drop k ys' @ D2"
      "cur = length (D1 @ [Obj x]) + k" "e = element_failure"
      "log w' = log w1 @ map CopyCtor (take k xs)"
      by blast
    with ok show ?thesis by (intro exI [of _ "Suc k"]) (simp add: ys)
  qed
qed

lemma copy_loop_not_UB:
  "length ys = length xs \<Longrightarrow>
   copy_loop (S1 @ map Obj xs @ S2) (length S1) (length xs) (D1 @ ys @ D2) (length D1) w \<noteq> UB"
proof (induction xs arbitrary: S1 D1 ys w)
  case Nil
  then show ?case by simp
next
  case (Cons x xs)
  then obtain y ys' where ys: "ys = y # ys'" and len: "length ys' = length xs"
    by (cases ys) auto
  show ?case
    using Cons.IH [OF len, of "S1 @ [Obj x]" "D1 @ [Obj x]"]
    by (cases rule: attempt_cases [of "CopyCtor x" w]) (simp_all add: ys)
qed

lemma uninitialized_copy_n_Ok:
  "uninitialized_copy_n (S1 @ map Obj xs @ S2) (length S1) (length xs) (D1 @ ys @ D2) (length D1) w
      = Ok r (dst', w') \<Longrightarrow> length ys = length xs \<Longrightarrow>
   dst' = D1 @ map Obj xs @ D2 \<and> log w' = log w @ map CopyCtor xs"
  by (auto simp: uninitialized_copy_n_def split: outcome.splits dest: copy_loop_Ok)

lemma uninitialized_copy_n_Throw:
  assumes "uninitialized_copy_n (S1 @ map Obj xs @ S2) (length S1) (length xs) (D1 @ ys @ D2) (length D1) w
      = Throw e (dst', w')" and len: "length ys = length xs"
  shows "\<exists>k<length xs. dst' = D1 @ replicate k Raw @ drop k ys @ D2 \<and> e = element_failure
     \<and> log w' = log w @ map CopyCtor (take k xs) @ map Dtor (take k xs)"
proof -
  from assms(1) obtain d1 cur w1 where
    loop: "copy_loop (S1 @ map Obj xs @ S2) (length S1) (length xs) (D1 @ ys @ D2) (length D1) w
      = Throw e (d1, cur, w1)"
    and d: "destroy_n d1 (length D1) (cur - length D1) w1 = Ok () (dst', w')"
    by (auto simp: uninitialized_copy_n_def split: outcome.splits)
  from copy_loop_Throw [OF loop len] obtain k where k: "k < length xs"
    "d1 = D1 @ map Obj (take k xs) @ drop k ys @ D2" "cur = length D1 + k" "e = element_failure"
    "log w1 = log w @ map CopyCtor (take k xs)"
    by blast
  from k(1) have lk: "length (take k xs) = k" by simp
  have "destroy_n d1 (length D1) (cur - length D1) w1
       = destroy_n (D1 @ map Obj (take k xs) @ (drop k ys @ D2)) (length D1) (length (take k xs)) w1"
    using k lk by simp
  also have "\<dots> = Ok () (D1 @ replicate (length (take k xs)) Raw @ (drop k ys @ D2),
       w1\<lparr>log := log w1 @ map Dtor (take k xs)\<rparr>)"
    by (rule destroy_n_objs)
  finally show ?thesis using d k lk by (intro exI [of _ k]) auto
qed

lemma uninitialized_copy_n_not_UB:
  assumes "length ys = length xs"
  shows "uninitialized_copy_n (S1 @ map Obj xs @ S2) (length S1) (length xs) (D1 @ ys @ D2) (length D1) w \<noteq> UB"
proof
  assume u: "uninitialized_copy_n (S1 @ map Obj xs @ S2) (length S1) (length xs) (D1 @ ys @ D2) (length D1) w = UB"
  show False
  proof (cases "copy_loop (S1 @ map Obj xs @ S2) (length S1) (length xs) (D1 @ ys @ D2) (length D1) w")
    case (Ok r s)
    with u show False by (auto simp: uninitialized_copy_n_def split: prod.splits)
  next
    case (Throw e s)
    obtain d1 cur w1 where s: "s = (d1, cur, w1)" by (cases s) auto
    from copy_loop_Throw [OF Throw [unfolded s] assms] obtain k where k: "k < length xs"
      "d1 = D1 @ map Obj (take k xs) @ drop k ys @ D2" "cur = length D1 + k"
      by blast
    from k(1) have lk: "length (take k xs) = k" by simp
    have "destroy_n d1 (length D1) (cur - length D1) w1
       = destroy_n (D1 @ map Obj (take k xs) @ (drop k ys @ D2)) (length D1) (length (take k xs)) w1"
      using k lk by simp
    also have "\<dots> = Ok () (D1 @ replicate (length (take k xs)) Raw @ (drop k ys @ D2),
       w1\<lparr>log := log w1 @ map Dtor (take k xs)\<rparr>)"
      by (rule destroy_n_objs)
    finally show False using u Throw s by (simp add: uninitialized_copy_n_def)
  next
    case UB
    with copy_loop_not_UB [OF assms] show False by blast
  qed
qed

lemma move_loop_Ok:
  "move_loop T (S1 @ map Obj xs @ S2) (length S1) (length xs) (D1 @ ys @ D2) (length D1) w
      = Ok r (src', dst', cur, w') \<Longrightarrow> length ys = length xs \<Longrightarrow>
   src' = S1 @ map (\<lambda>x. Obj (moved_from T x)) xs @ S2 \<and> dst' = D1 @ map Obj xs @ D2
     \<and> log w' = log w @ map MoveCtor xs"
proof (induction xs arbitrary: S1 D1 ys w)
  case Nil
  then show ?case by simp
next
  case (Cons x xs)
  then obtain y ys' where ys: "ys = y # ys'" and len: "length ys' = length xs"
    by (cases ys) auto
  from Cons.prems(1) obtain w1 where c: "construct T (ByMove x) w = Ok x w1"
    and rest: "move_loop T ((S1 @ [Obj (moved_from T x)]) @ map Obj xs @ S2) (length (S1 @ [Obj (moved_from T x)]))
         (length xs) ((D1 @ [Obj x]) @ ys' @ D2) (length (D1 @ [Obj x])) w1 = Ok r (src', dst', cur, w')"
    by (auto simp: ys split: outcome.splits dest: construct_Ok)
  from Cons.IH [OF rest len] construct_Ok [OF c] show ?case by simp
qed

lemma uninitialized_move_n_Ok:
  "uninitialized_move_n T (S1 @ map Obj xs @ S2) (length S1) (length xs) (D1 @ ys @ D2) (length D1) w
      = Ok r (src', dst', w') \<Longrightarrow> length ys = length xs \<Longrightarrow>
   src' = S1 @ map (\<lambda>x. Obj (moved_from T x)) xs @ S2 \<and> dst' = D1 @ map Obj xs @ D2
     \<and> log w' = log w @ map MoveCtor xs"
  by (auto simp: uninitialized_move_n_def split: outcome.splits dest: move_loop_Ok)

lemma value_construct_loop_Ok:
  "value_construct_loop T (D1 @ ys @ D2) (length D1) (length ys) w = Ok r (b', cur, w') \<Longrightarrow>
   b' = D1 @ replicate (length ys) (Obj (value_init T)) @ D2
     \<and> log w' = log w @ replicate (length ys) (ValueCtor (value_init T))"
proof (induction ys arbitrary: D1 w)
  case Nil
  then show ?case by simp
next
  case (Cons y ys)
  from Cons.prems(1) obtain w1 where a: "attempt (ValueCtor (value_init T)) w = (True, w1)"
    and rest: "value_construct_loop T ((D1 @ [Obj (value_init T)]) @ ys @ D2)
         (length (D1 @ [Obj (value_init T)])) (length ys) w1 = Ok r (b', cur, w')"
    by (auto split: prod.splits bool.splits)
  from Cons.IH [OF rest] attempt_True [OF a] show ?case by (simp add: replicate_append_same)
qed

lemma uninitialized_value_construct_n_Ok:
  "uninitialized_value_construct_n T (D1 @ ys @ D2) (length D1) (length ys) w = Ok r (b', w') \<Longrightarrow>
   b' = D1 @ replicate (length ys) (Obj (value_init T)) @ D2
     \<and> log w' = log w @ replicate (length ys) (ValueCtor (value_init T))"
  by (auto simp: uninitialized_value_construct_n_def split: outcome.splits
      dest: value_construct_loop_Ok)

lemma move_assign_at_down_Ok:
  "move_assign_at T (P @ Obj y # Obj x # B) (Suc (length P)) (length P) w = Ok r (b', w') \<Longrightarrow>
   b' = P @ Obj x # Obj (moved_from T x) # B \<and> log w' = log w @ [MoveAssign x]"
  by (auto simp: move_assign_at_def split: prod.splits bool.splits dest: attempt_True)

lemma move_assign_at_up_Ok:
  "move_assign_at T (P @ Obj x # Obj y # B) (length P) (Suc (length P)) w = Ok r (b', w') \<Longrightarrow>
   b' = P @ Obj (moved_from T x) # Obj x # B \<and> log w' = log w @ [MoveAssign x]"
  by (auto simp: move_assign_at_def split: prod.splits bool.splits dest: attempt_True)

lemma move_n_Ok:
  "move_n T (A @ Obj y # map Obj xs @ B) (Suc (length A)) (length xs) (length A) w = Ok r (b', w') \<Longrightarrow>
   b' = A @ map Obj xs @ Obj (last (y # map (moved_from T) xs)) # B
     \<and> log w' = log w @ map MoveAssign xs"
proof (induction xs arbitrary: A y w)
  case Nil
  then show ?case by simp
next
  case (Cons x xs)
  from Cons.prems obtain b1 w1 where
    a: "move_assign_at T (A @ Obj y # Obj x # (map Obj xs @ B)) (Suc (length A)) (length A) w = Ok () (b1, w1)"
    and rest: "move_n T b1 (Suc (Suc (length A))) (length xs) (Suc (length A)) w1 = Ok r (b', w')"
    by (auto split: outcome.splits)
  from move_assign_at_down_Ok [OF a]
  have b1: "b1 = (A @ [Obj x]) @ Obj (moved_from T x) # map Obj xs @ B"
    and l1: "log w1 = log w @ [MoveAssign x]"
    by simp_all
  from rest have "move_n T ((A @ [Obj x]) @ Obj (moved_from T x) # map Obj xs @ B)
      (Suc (length (A @ [Obj x]))) (length xs) (length (A @ [Obj x])) w1 = Ok r (b', w')"
    by (simp add: b1)
  from Cons.IH [OF this] l1 show ?case by simp
qed

lemma move_backward_n_Ok:
  "move_backward_n T (A @ map Obj xs @ Obj y # B) (length A + length xs) (length xs)
      (Suc (length A + length xs)) w = Ok r (b', w') \<Longrightarrow>
   b' = A @ Obj (hd (map (moved_from T) xs @ [y])) # map Obj xs @ B
     \<and> log w' = log w @ map MoveAssign (rev xs)"
proof (induction xs arbitrary: y B w rule: rev_induct)
  case Nil
  then show ?case by simp
next
  case (snoc x xs)
  let ?P = "A @ map Obj xs"
  have blk: "A @ map Obj (xs @ [x]) @ Obj y # B = ?P @ Obj x # Obj y # B"
    by simp
  have lp: "length ?P = length A + length xs"
    by simp
  from snoc.prems obtain b1 w1 where
    a: "move_assign_at T (?P @ Obj x # Obj y # B) (length ?P) (Suc (length ?P)) w = Ok () (b1, w1)"
    and rest: "move_backward_n T b1 (length A + length xs) (length xs) (Suc (length A + length xs)) w1
        = Ok r (b', w')"
    unfolding blk by (auto simp del: append_assoc split: outcome.splits)
  from move_assign_at_up_Ok [OF a]
  have b1: "b1 = A @ map Obj xs @ Obj (moved_from T x) # (Obj x # B)"
    and l1: "log w1 = log w @ [MoveAssign x]"
    by simp_all
  from snoc.IH [OF rest [unfolded b1]] l1 show ?case
    by (cases xs) simp_all
qed

lemma move_construct_at_Ok:
  "move_construct_at T (P @ Obj x # y # B) (length P) (Suc (length P)) w = Ok r (b', w') \<Longrightarrow>
   b' = P @ Obj (moved_from T x) # Obj x # B \<and> log w' = log w @ [MoveCtor x]"
  by (auto simp: move_construct_at_def split: outcome.splits dest: construct_Ok)

lemma move_assign_from_Ok:
  "move_assign_from temp (P @ Obj z # B) (length P) w = Ok r (b', w') \<Longrightarrow>
   b' = P @ Obj temp # B \<and> log w' = log w @ [MoveAssign temp]"
  by (auto simp: move_assign_from_def split: prod.splits bool.splits dest: attempt_True)

subsection \<open>Facts about \<open>holds\<close>\<close>

lemma holdsD:
  "holds v xs \<Longrightarrow> m_size v = length xs \<and> length xs \<le> Capacity v
     \<and> m_buffer (m_data v) = map Obj xs @ replicate (Capacity v - length xs) Raw"
  by (simp add: holds_def Capacity_def)

lemma holdsI:
  "m_size v = length xs \<Longrightarrow> m_capacity (m_data v) = c \<Longrightarrow> length xs \<le> c \<Longrightarrow>
   m_buffer (m_data v) = map Obj xs @ replicate (c - length xs) Raw \<Longrightarrow> holds v xs"
  by (simp add: holds_def)

lemma objs_map_Obj [simp]: "objs (map Obj xs @ replicate k Raw) = xs"
  by (induction xs) (simp_all, induction k, simp_all)

lemma holds_elems: "holds v xs \<Longrightarrow> elems v = xs"
  using objs_map_Obj [of xs 0] by (simp add: holds_def elems_def)

lemma holds_buffer_length: "holds v xs \<Longrightarrow> length (m_buffer (m_data v)) = Capacity v"
  by (simp add: holds_def Capacity_def)

lemma set_buffer_same [simp]: "set_buffer v (m_buffer (m_data v)) = v"
  by (simp add: set_buffer_def)

lemma destroy_n_objs_Ok:
  "destroy_n (A @ map Obj xs @ B) (length A) (length xs) w = Ok r (b', w') \<Longrightarrow>
   b' = A @ replicate (length xs) Raw @ B \<and> log w' = log w @ map Dtor xs"
  by (auto simp: destroy_n_objs)

lemma relocate_n_Ok:
  "relocate_n T (S1 @ map Obj xs @ S2) (length S1) (length xs) (D1 @ ys @ D2) (length D1) w
      = Ok r (src', dst', w') \<Longrightarrow> length ys = length xs \<Longrightarrow>
   src' = S1 @ map Obj (map (left_behind T) xs) @ S2 \<and> dst' = D1 @ map Obj xs @ D2
     \<and> log w' = log w @ map (relocation_event T) xs"
  by (auto simp: relocate_n_def left_behind_def relocation_event_def o_def
      split: if_splits outcome.splits
      dest: uninitialized_move_n_Ok uninitialized_copy_n_Ok)

lemma relocate_eq:
  "first \<le> last_p \<Longrightarrow>
   relocate T src first last_p dst d w = relocate_n T src first (last_p - first) dst d w"
  by (simp add: relocate_def relocate_n_def uninitialized_move_def uninitialized_copy_def)

lemma Reserve_Ok:
  assumes h: "holds v xs" and gt: "Capacity v < n" and ft: "fits T n"
    and ok: "Reserve T n v w = Ok r (v', w')"
  shows "holds v' xs \<and> Capacity v' = n \<and> allocatable T n
     \<and> log w' = log w @ [Alloc n] @ map (relocation_event T) xs
          @ map Dtor (map (left_behind T) xs) @ [Free (Capacity v)]"
proof -
  let ?c = "Capacity v"
  let ?R = "replicate (?c - length xs) Raw"
  from holdsD [OF h] have sz: "m_size v = length xs" and le: "length xs \<le> ?c"
    and buf: "m_buffer (m_data v) = map Obj xs @ ?R"
    by simp_all
  from gt le have n: "length xs \<le> n" "n \<noteq> 0" by simp_all
  from ok gt obtain nd w1 src dst w2 src' w3 where
    a: "RawMemory_new T n w = Ok nd w1"
    and rl: "relocate_n T (m_buffer (m_data v)) 0 (m_size v) (m_buffer nd) 0 w1 = Ok () (src, dst, w2)"
    and d: "destroy_n src 0 (m_size v) w2 = Ok () (src', w3)"
    and v': "v' = v\<lparr>m_data := (m_data v)\<lparr>m_buffer := dst, m_capacity := m_capacity nd\<rparr>\<rparr>"
    and w': "w' = RawMemory_dtor (nd\<lparr>m_buffer := src', m_capacity := ?c\<rparr>) w3"
    by (auto simp: Reserve_def RawMemory_Swap_def Capacity_def split: outcome.splits)
  from RawMemory_new_Ok [OF a ft] n
  have nd: "m_buffer nd = replicate n Raw" "m_capacity nd = n" and l1: "log w1 = log w @ [Alloc n]"
    and al: "allocatable T n"
    by simp_all
  have new: "replicate n Raw = [] @ replicate (length xs) Raw @ replicate (n - length xs) Raw"
    using n by (simp add: replicate_add [symmetric])
  from rl have "relocate_n T ([] @ map Obj xs @ ?R) (length ([] :: 'a slot list)) (length xs)
               ([] @ replicate (length xs) Raw @ replicate (n - length xs) Raw)
               (length ([] :: 'a slot list)) w1 = Ok () (src, dst, w2)"
    unfolding sz buf nd new [symmetric] by simp
  from relocate_n_Ok [OF this] have src: "src = [] @ map Obj (map (left_behind T) xs) @ ?R"
    and dst: "dst = map Obj xs @ replicate (n - length xs) Raw"
    and l2: "log w2 = log w1 @ map (relocation_event T) xs"
    by simp_all
  from d have "destroy_n ([] @ map Obj (map (left_behind T) xs) @ ?R) (length ([] :: 'a slot list))
          (length (map (left_behind T) xs)) w2 = Ok () (src', w3)"
    by (simp add: src sz)
  from destroy_n_objs_Ok [OF this] have src': "src' = replicate (length xs) Raw @ ?R"
    and l3: "log w3 = log w2 @ map Dtor (map (left_behind T) xs)"
    by simp_all
  have len: "length src' = ?c" using le by (simp add: src')
  have "holds v' xs"
    using n by (intro holdsI [where c = n]) (simp_all add: v' sz dst nd)
  moreover have "Capacity v' = n" by (simp add: v' Capacity_def nd)
  moreover have "log w' = log w @ [Alloc n] @ map (relocation_event T) xs
          @ map Dtor (map (left_behind T) xs) @ [Free ?c]"
    by (simp add: w' RawMemory_dtor_def l1 l2 l3 len)
  ultimately show ?thesis using al by simp
qed

lemma Reserve_noop: "n \<le> Capacity v \<Longrightarrow> Reserve T n v w = Ok () (v, w)"
  by (simp add: Reserve_def)

lemma holds_vector_of: "length xs \<le> c \<Longrightarrow> holds (vector_of xs c) xs"
  by (simp add: holds_def vector_of_def)

subsection \<open>Facts about growth and appending\<close>

lemma Realloc_Ok:
  assumes h: "holds v xs" and nb: "m_buffer nd = ys @ D2" and len: "length ys = length xs"
    and ok: "Realloc T nd v w = Ok r (v', nd', w')"
  shows "m_size v' = length xs \<and> m_buffer (m_data v') = map Obj xs @ D2
     \<and> m_capacity (m_data v') = m_capacity nd
     \<and> m_buffer nd' = replicate (Capacity v) Raw
     \<and> log w' = log w @ map (relocation_event T) xs @ map Dtor (map (left_behind T) xs)"
proof -
  let ?c = "Capacity v"
  let ?R = "replicate (?c - length xs) Raw"
  from holdsD [OF h] have sz: "m_size v = length xs" and le: "length xs \<le> ?c"
    and buf: "m_buffer (m_data v) = map Obj xs @ ?R"
    by simp_all
  from ok obtain src dst w1 src' where
    rl: "relocate_n T (m_buffer (m_data v)) 0 (m_size v) (m_buffer nd) 0 w = Ok () (src, dst, w1)"
    and d: "destroy_n src 0 (m_size v) w1 = Ok () (src', w')"
    and v': "v' = v\<lparr>m_data := (m_data v)\<lparr>m_buffer := dst, m_capacity := m_capacity nd\<rparr>\<rparr>"
    and nd': "nd' = nd\<lparr>m_buffer := src', m_capacity := ?c\<rparr>"
    by (auto simp: Realloc_def RawMemory_Swap_def Capacity_def split: outcome.splits)
  from rl have "relocate_n T ([] @ map Obj xs @ ?R) (length ([] :: 'a slot list)) (length xs)
               ([] @ ys @ D2) (length ([] :: 'a slot list)) w = Ok () (src, dst, w1)"
    by (simp add: sz buf nb)
  from relocate_n_Ok [OF this len] have src: "src = [] @ map Obj (map (left_behind T) xs) @ ?R"
    and dst: "dst = map Obj xs @ D2"
    and l1: "log w1 = log w @ map (relocation_event T) xs"
    by simp_all
  from d have "destroy_n ([] @ map Obj (map (left_behind T) xs) @ ?R) (length ([] :: 'a slot list))
          (length (map (left_behind T) xs)) w1 = Ok () (src', w')"
    by (simp add: src sz)
  from destroy_n_objs_Ok [OF this] have src': "src' = replicate (length xs) Raw @ ?R"
    and l2: "log w' = log w1 @ map Dtor (map (left_behind T) xs)"
    by simp_all
  have "src' = replicate ?c Raw"
    using le by (simp add: src' replicate_add [symmetric])
  then show ?thesis
    by (simp add: v' nd' sz dst l1 l2)
qed

lemma Realloc_copy_Throw:
  assumes h: "holds v xs" and nb: "m_buffer nd = ys @ D2" and len: "length ys = length xs"
    and copy: "\<not> (nothrow_move_constructible T \<or> \<not> copy_constructible T)"
    and thr: "Realloc T nd v w = Throw e (v', nd', w')"
  shows "v' = v \<and> length (m_buffer nd') = length (m_buffer nd) \<and> e = element_failure
     \<and> (\<exists>k<length xs. log w' = log w @ map CopyCtor (take k xs) @ map Dtor (take k xs))"
proof -
  let ?R = "replicate (Capacity v - length xs) Raw"
  from holdsD [OF h] have sz: "m_size v = length xs"
    and buf: "m_buffer (m_data v) = map Obj xs @ ?R"
    by simp_all
  from thr copy obtain dst where
    u: "uninitialized_copy_n (m_buffer (m_data v)) 0 (m_size v) (m_buffer nd) 0 w = Throw e (dst, w')"
    and v': "v' = set_buffer v (m_buffer (m_data v))" and nd': "nd' = nd\<lparr>m_buffer := dst\<rparr>"
    by (auto simp: Realloc_def relocate_n_def split: outcome.splits prod.splits)
  from u have "uninitialized_copy_n ([] @ map Obj xs @ ?R) (length ([] :: 'a slot list)) (length xs)
      ([] @ ys @ D2) (length ([] :: 'a slot list)) w = Throw e (dst, w')"
    by (simp add: sz buf nb)
  from uninitialized_copy_n_Throw [OF this len] obtain k where k: "k < length xs"
    "dst = [] @ replicate k Raw @ drop k ys @ D2" "e = element_failure"
    "log w' = log w @ map CopyCtor (take k xs) @ map Dtor (take k xs)"
    by blast
  from k(1) len have "length dst = length (ys @ D2)" by (simp add: k(2))
  with k show ?thesis by (auto simp: v' nd' nb)
qed

lemma Realloc_copy_not_UB:
  assumes h: "holds v xs" and nb: "m_buffer nd = ys @ D2" and len: "length ys = length xs"
    and copy: "\<not> (nothrow_move_constructible T \<or> \<not> copy_constructible T)"
  shows "Realloc T nd v w \<noteq> UB"
proof
  assume ub: "Realloc T nd v w = UB"
  let ?R = "replicate (Capacity v - length xs) Raw"
  from holdsD [OF h] have sz: "m_size v = length xs"
    and buf: "m_buffer (m_data v) = map Obj xs @ ?R"
    by simp_all
  have blk: "uninitialized_copy_n (m_buffer (m_data v)) 0 (m_size v) (m_buffer nd) 0 w
      = uninitialized_copy_n ([] @ map Obj xs @ ?R) (length ([] :: 'a slot list)) (length xs)
      ([] @ ys @ D2) (length ([] :: 'a slot list)) w"
    by (simp add: sz buf nb)
  show False
  proof (cases "uninitialized_copy_n (m_buffer (m_data v)) 0 (m_size v) (m_buffer nd) 0 w")
    case (Ok r s)
    obtain dst w1 where s: "s = (dst, w1)" by (cases s)
    from Ok have "uninitialized_copy_n ([] @ map Obj xs @ ?R) (length ([] :: 'a slot list)) (length xs)
      ([] @ ys @ D2) (length ([] :: 'a slot list)) w = Ok r (dst, w1)"
      by (simp add: blk s)
    from uninitialized_copy_n_Ok [OF this len] have "dst = map Obj xs @ D2" by simp
    have "destroy_n (m_buffer (m_data v)) 0 (m_size v) w1
        = destroy_n ([] @ map Obj xs @ ?R) (length ([] :: 'a slot list)) (length xs) w1"
      by (simp add: sz buf)
    also have "\<dots> = Ok () ([] @ replicate (length xs) Raw @ ?R, w1\<lparr>log := log w1 @ map Dtor xs\<rparr>)"
      by (rule destroy_n_objs)
    finally show False
      using ub copy Ok s by (simp add: Realloc_def relocate_n_def RawMemory_Swap_def)
  next
    case (Throw e s)
    with ub copy show False by (simp add: Realloc_def relocate_n_def split: prod.splits)
  next
    case UB
    with uninitialized_copy_n_not_UB [OF len, of "[]" "?R" "[]" D2 w] blk show False by simp
  qed
qed

lemma NewExpendedMem_capacity:
  assumes "fits T (max 1 (m_size v * 2))"
  shows "(if m_size v = 0 then 1 else (m_size v * 2) mod SIZE_MOD) = max 1 (m_size v * 2)"
proof (cases "m_size v = 0")
  case True
  then show ?thesis by simp
next
  case False
  then have "max 1 (m_size v * 2) = m_size v * 2" by simp
  with fits_less [OF assms] False show ?thesis by simp
qed

lemma NewExpendedMem_Ok:
  assumes "NewExpendedMem T v w = Ok nm w1" and ft: "fits T (max 1 (m_size v * 2))"
  shows "m_buffer nm = replicate (max 1 (m_size v * 2)) Raw \<and> m_capacity nm = max 1 (m_size v * 2)
     \<and> log w1 = log w @ [Alloc (max 1 (m_size v * 2))]
     \<and> allocatable T (max 1 (m_size v * 2))"
proof -
  from assms(1) have "RawMemory_new T (max 1 (m_size v * 2)) w = Ok nm w1"
    unfolding NewExpendedMem_def NewExpendedMem_capacity [OF ft] .
  from RawMemory_new_Ok [OF this ft] show ?thesis by simp
qed

lemma NewExpendedMem_Throw:
  "NewExpendedMem T v w = Throw e w1 \<Longrightarrow> e = bad_alloc \<and> log w1 = log w"
  by (auto simp: NewExpendedMem_def dest: RawMemory_new_Throw)

lemma NewExpendedMem_not_UB [simp]: "NewExpendedMem T v w \<noteq> UB"
  by (simp add: NewExpendedMem_def)

lemma replicate_split:
  "n < c \<Longrightarrow> replicate c Raw = replicate n Raw @ Raw # replicate (c - Suc n) Raw"
  by (metis Suc_diff_Suc add_diff_inverse_nat less_imp_le_nat not_less replicate_Suc replicate_add)

lemma EmplaceBack_Ok:
  assumes h: "holds v xs" and ft: "fits T (max 1 (length xs * 2))"
    and ok: "EmplaceBack T a v w = Ok r (v', w')"
  shows "holds v' (xs @ [arg_value a]) \<and> r = length xs
     \<and> (if length xs = Capacity v
         then Capacity v' = max 1 (length xs * 2) \<and> allocatable T (max 1 (length xs * 2))
           \<and> log w' = log w @ [Alloc (max 1 (length xs * 2)), ctor_event a]
                @ map (relocation_event T) xs @ map Dtor (map (left_behind T) xs)
                @ [Free (Capacity v)]
         else Capacity v' = Capacity v \<and> log w' = log w @ [ctor_event a])"
proof -
  let ?n = "length xs"
  let ?c = "max 1 (?n * 2)"
  from holdsD [OF h] have sz: "m_size v = ?n" and le: "?n \<le> Capacity v"
    and buf: "m_buffer (m_data v) = map Obj xs @ replicate (Capacity v - ?n) Raw"
    by simp_all
  from ft have ft': "fits T (max 1 (m_size v * 2))" by (simp add: sz)
  show ?thesis
  proof (cases "?n = Capacity v")
    case True
    have lt: "?n < ?c" by simp
    from ok True obtain nm w1 b w2 v1 nm' w3 where
      a: "NewExpendedMem T v w = Ok nm w1"
      and c: "construct_at T a (m_buffer nm) (m_size v) w1 = Ok () (b, w2)"
      and rl: "Realloc T (nm\<lparr>m_buffer := b\<rparr>) v w2 = Ok () (v1, nm', w3)"
      and r: "r = m_size v" and v': "v' = v1\<lparr>m_size := m_size v1 + 1\<rparr>"
      and w': "w' = RawMemory_dtor nm' w3"
      by (auto simp: EmplaceBack_def sz split: outcome.splits)
    from NewExpendedMem_Ok [OF a ft'] have nm: "m_buffer nm = replicate ?c Raw" "m_capacity nm = ?c"
      and l1: "log w1 = log w @ [Alloc ?c]" and al: "allocatable T ?c"
      by (simp_all add: sz)
    from c have "construct_at T a (replicate ?n Raw @ Raw # replicate (?c - Suc ?n) Raw)
        (length (replicate ?n (Raw :: 'a slot))) w1 = Ok () (b, w2)"
      unfolding nm sz replicate_split [OF lt] by simp
    from construct_at_Ok [OF this]
    have b: "b = replicate ?n Raw @ Obj (arg_value a) # replicate (?c - Suc ?n) Raw"
      and l2: "log w2 = log w1 @ [ctor_event a]"
      by simp_all
    have "m_buffer (nm\<lparr>m_buffer := b\<rparr>)
        = replicate ?n Raw @ (Obj (arg_value a) # replicate (?c - Suc ?n) Raw)"
      by (simp add: b)
    from Realloc_Ok [OF h this _ rl]
    have v1: "m_size v1 = ?n"
      "m_buffer (m_data v1) = map Obj xs @ Obj (arg_value a) # replicate (?c - Suc ?n) Raw"
      "m_capacity (m_data v1) = ?c"
      and nm': "m_buffer nm' = replicate (Capacity v) Raw"
      and l3: "log w3 = log w2 @ map (relocation_event T) xs @ map Dtor (map (left_behind T) xs)"
      by (simp_all add: nm)
    have "holds v' (xs @ [arg_value a])"
      by (intro holdsI [where c = ?c]) (simp_all add: v' v1)
    moreover have "Capacity v' = ?c" by (simp add: v' v1 Capacity_def)
    moreover have "log w' = log w @ [Alloc ?c, ctor_event a]
                @ map (relocation_event T) xs @ map Dtor (map (left_behind T) xs)
                @ [Free (Capacity v)]"
      by (simp add: w' RawMemory_dtor_def nm' l1 l2 l3)
    ultimately show ?thesis using True r sz al by simp
  next
    case False
    with le have lt: "?n < Capacity v" by simp
    from ok False obtain b where
      c: "construct_at T a (m_buffer (m_data v)) (m_size v) w = Ok () (b, w')"
      and r: "r = m_size v" and v': "v' = (set_buffer v b)\<lparr>m_size := m_size v + 1\<rparr>"
      by (auto simp: EmplaceBack_def sz split: outcome.splits)
    have rs: "replicate (Capacity v - ?n) Raw = Raw # replicate (Capacity v - Suc ?n) Raw"
      using lt by (cases "Capacity v - ?n") auto
    from c have "construct_at T a (map Obj xs @ Raw # replicate (Capacity v - Suc ?n) Raw)
        (length (map Obj xs)) w = Ok () (b, w')"
      unfolding buf sz rs by simp
    from construct_at_Ok [OF this]
    have b: "b = map Obj xs @ Obj (arg_value a) # replicate (Capacity v - Suc ?n) Raw"
      and l: "log w' = log w @ [ctor_event a]"
      by simp_all
    have "holds v' (xs @ [arg_value a])"
      using lt by (intro holdsI [where c = "Capacity v"])
        (simp_all add: v' set_buffer_def sz b Capacity_def)
    moreover have "Capacity v' = Capacity v" by (simp add: v' set_buffer_def Capacity_def)
    ultimately show ?thesis using False r sz l by simp
  qed
qed

lemma EmplaceBack_copy_Throw:
  assumes h: "holds v xs" and ft: "fits T (max 1 (length xs * 2))"
    and full: "m_size v = Capacity v"
    and copy: "\<not> (nothrow_move_constructible T \<or> \<not> copy_constructible T)"
    and thr: "EmplaceBack T a v w = Throw e (v', w')"
  shows "v' = v
     \<and> (e = bad_alloc \<and> log w' = log w
        \<or> e = element_failure
            \<and> log w' = log w @ [Alloc (max 1 (length xs * 2)), Free (max 1 (length xs * 2))]
        \<or> e = element_failure
            \<and> (\<exists>k<length xs. log w' = log w @ [Alloc (max 1 (length xs * 2)), ctor_event a]
                   @ map CopyCtor (take k xs) @ map Dtor (take k xs)
                   @ [Free (max 1 (length xs * 2))]))"
proof -
  let ?n = "length xs"
  let ?c = "max 1 (?n * 2)"
  from holdsD [OF h] have sz: "m_size v = ?n" by simp
  from ft have ft': "fits T (max 1 (m_size v * 2))" by (simp add: sz)
  have lt: "?n < ?c" by simp
  from thr full consider
    (alloc) "NewExpendedMem T v w = Throw e w'" "v' = v"
    | (ctor) nm w1 b w2 where "NewExpendedMem T v w = Ok nm w1"
        "construct_at T a (m_buffer nm) (m_size v) w1 = Throw e (b, w2)"
        "v' = v" "w' = RawMemory_dtor (nm\<lparr>m_buffer := b\<rparr>) w2"
    | (reloc) nm w1 b w2 nm' w3 where "NewExpendedMem T v w = Ok nm w1"
        "construct_at T a (m_buffer nm) (m_size v) w1 = Ok () (b, w2)"
        "Realloc T (nm\<lparr>m_buffer := b\<rparr>) v w2 = Throw e (v', nm', w3)"
        "w' = RawMemory_dtor nm' w3"
    by (auto simp: EmplaceBack_def split: outcome.splits)
  then show ?thesis
  proof cases
    case alloc
    with NewExpendedMem_Throw [OF alloc(1)] show ?thesis by simp
  next
    case ctor
    from NewExpendedMem_Ok [OF ctor(1) ft'] have nm: "m_buffer nm = replicate ?c Raw"
      and l1: "log w1 = log w @ [Alloc ?c]"
      by (simp_all add: sz)
    from construct_at_Throw [OF ctor(2)] have "b = replicate ?c Raw" "e = element_failure"
      "log w2 = log w1"
      by (simp_all add: nm)
    with ctor l1 show ?thesis by (simp add: RawMemory_dtor_def)
  next
    case reloc
    from NewExpendedMem_Ok [OF reloc(1) ft'] have nm: "m_buffer nm = replicate ?c Raw"
      and l1: "log w1 = log w @ [Alloc ?c]"
      by (simp_all add: sz)
    from reloc(2) have "construct_at T a (replicate ?n Raw @ Raw # replicate (?c - Suc ?n) Raw)
        (length (replicate ?n (Raw :: 'a slot))) w1 = Ok () (b, w2)"
      unfolding nm sz replicate_split [OF lt] by simp
    from construct_at_Ok [OF this]
    have b: "b = replicate ?n Raw @ Obj (arg_value a) # replicate (?c - Suc ?n) Raw"
      and l2: "log w2 = log w1 @ [ctor_event a]"
      by simp_all
    have nb: "m_buffer (nm\<lparr>m_buffer := b\<rparr>)
        = replicate ?n Raw @ (Obj (arg_value a) # replicate (?c - Suc ?n) Raw)"
      by (simp add: b)
    from Realloc_copy_Throw [OF h nb _ copy reloc(3)] obtain k where
      "v' = v" and ln: "length (m_buffer nm') = length b" and "e = element_failure"
      and k: "k < ?n" "log w3 = log w2 @ map CopyCtor (take k xs) @ map Dtor (take k xs)"
      by auto
    from ln have "length (m_buffer nm') = ?c" "m_buffer nm' \<noteq> []"
      using lt by (auto simp: b)
    with \<open>v' = v\<close> \<open>e = element_failure\<close> k l1 l2 reloc(4) show ?thesis
      by (auto simp: RawMemory_dtor_def)
  qed
qed

lemma EmplaceBack_copy_not_UB:
  assumes h: "holds v xs" and ft: "fits T (max 1 (length xs * 2))"
    and full: "m_size v = Capacity v"
    and copy: "\<not> (nothrow_move_constructible T \<or> \<not> copy_constructible T)"
  shows "EmplaceBack T a v w \<noteq> UB"
proof
  assume ub: "EmplaceBack T a v w = UB"
  let ?n = "length xs"
  let ?c = "max 1 (?n * 2)"
  from holdsD [OF h] have sz: "m_size v = ?n" by simp
  from ft have ft': "fits T (max 1 (m_size v * 2))" by (simp add: sz)
  have lt: "?n < ?c" by simp
  from ub full consider
    (ctor) nm w1 where "NewExpendedMem T v w = Ok nm w1"
        "construct_at T a (m_buffer nm) (m_size v) w1 = UB"
    | (reloc) nm w1 b w2 where "NewExpendedMem T v w = Ok nm w1"
        "construct_at T a (m_buffer nm) (m_size v) w1 = Ok () (b, w2)"
        "Realloc T (nm\<lparr>m_buffer := b\<rparr>) v w2 = UB"
    by (auto simp: EmplaceBack_def split: outcome.splits)
  then show False
  proof cases
    case ctor
    from NewExpendedMem_Ok [OF ctor(1) ft'] have "m_buffer nm = replicate ?c Raw"
      by (simp add: sz)
    with ctor(2) lt show False
      by (auto simp: construct_at_def sz split: outcome.splits if_splits)
  next
    case reloc
    from NewExpendedMem_Ok [OF reloc(1) ft'] have nm: "m_buffer nm = replicate ?c Raw"
      by (simp add: sz)
    from reloc(2) have "construct_at T a (replicate ?n Raw @ Raw # replicate (?c - Suc ?n) Raw)
        (length (replicate ?n (Raw :: 'a slot))) w1 = Ok () (b, w2)"
      unfolding nm sz replicate_split [OF lt] by simp
    from construct_at_Ok [OF this]
    have b: "b = replicate ?n Raw @ Obj (arg_value a) # replicate (?c - Suc ?n) Raw"
      by simp
    have nb: "m_buffer (nm\<lparr>m_buffer := b\<rparr>)
        = replicate ?n Raw @ (Obj (arg_value a) # replicate (?c - Suc ?n) Raw)"
      by (simp add: b)
    from Realloc_copy_not_UB [OF h nb _ copy] reloc(3) show False by simp
  qed
qed

lemma PushBack_EmplaceBack:
  "PushBack T x v w =
     (case EmplaceBack T (ByCopy x) v w of
        Ok _ s \<Rightarrow> Ok () s | Throw e s \<Rightarrow> Throw e s | UB \<Rightarrow> UB)"
  by (auto simp: PushBack_def EmplaceBack_def split: outcome.splits)

lemma PushBack_rvalue_EmplaceBack:
  "PushBack_rvalue T x v w =
     (case EmplaceBack T (ByMove x) v w of
        Ok _ s \<Rightarrow> Ok () s | Throw e s \<Rightarrow> Throw e s | UB \<Rightarrow> UB)"
  by (auto simp: PushBack_rvalue_def EmplaceBack_def split: outcome.splits)

subsection \<open>Facts about erasing, resizing and inserting\<close>

lemma Erase_Ok:
  assumes h: "holds v xs" and pos: "pos < length xs"
    and ok: "Erase T pos v w = Ok r (v', w')"
  shows "holds v' (take pos xs @ drop (Suc pos) xs) \<and> r = pos \<and> Capacity v' = Capacity v"
proof -
  let ?n = "length xs"
  let ?R = "replicate (Capacity v - ?n) Raw"
  let ?pre = "take pos xs"
  let ?post = "drop (Suc pos) xs"
  from holdsD [OF h] have sz: "m_size v = ?n" and le: "?n \<le> Capacity v"
    and buf: "m_buffer (m_data v) = map Obj xs @ ?R"
    by simp_all
  from pos have xs: "xs = ?pre @ xs ! pos # ?post"
    by (simp add: id_take_nth_drop)
  have lpre: "length ?pre = pos" and lpost: "length ?post = ?n - Suc pos"
    using pos by simp_all
  have blk: "map Obj xs @ ?R = map Obj ?pre @ Obj (xs ! pos) # map Obj ?post @ ?R"
    by (subst xs) simp
  from ok pos obtain b w1 b' where
    mv: "move_n T (m_buffer (m_data v)) (Suc pos) (?n - Suc pos) pos w = Ok () (b, w1)"
    and d: "destroy_n b (?n - 1) 1 w1 = Ok () (b', w')"
    and r: "r = pos" and v': "v' = (set_buffer v b')\<lparr>m_size := ?n - 1\<rparr>"
    by (auto simp: Erase_def std_move_def sz split: outcome.splits if_splits)
  from mv have "move_n T (map Obj ?pre @ Obj (xs ! pos) # map Obj ?post @ ?R)
      (Suc (length (map Obj ?pre))) (length ?post) (length (map Obj ?pre)) w = Ok () (b, w1)"
    unfolding buf blk using lpre lpost by simp
  from move_n_Ok [OF this] obtain z where
    b: "b = (map Obj ?pre @ map Obj ?post) @ map Obj [z] @ (?R)"
    by simp
  have "length (map Obj ?pre @ map Obj ?post) = ?n - 1"
    using pos by simp
  with d have "destroy_n ((map Obj ?pre @ map Obj ?post) @ map Obj [z] @ ?R)
      (length (map Obj ?pre @ map Obj ?post)) (length [z]) w1 = Ok () (b', w')"
    unfolding b by simp
  from destroy_n_objs_Ok [OF this]
  have b': "b' = map Obj (?pre @ ?post) @ Raw # ?R"
    by simp
  have "Raw # ?R = replicate (Capacity v - (?n - 1)) Raw"
    using pos le by (simp add: Suc_diff_le flip: replicate_Suc)
  then have "holds v' (?pre @ ?post)"
    using pos le
    by (intro holdsI [where c = "Capacity v"]) (simp_all add: v' set_buffer_def Capacity_def b')
  moreover have "Capacity v' = Capacity v" by (simp add: v' set_buffer_def Capacity_def)
  ultimately show ?thesis using r by simp
qed

lemma Resize_Ok:
  assumes h: "holds v xs" and ft: "n \<le> Capacity v \<or> fits T n"
    and ok: "Resize T n v w = Ok r (v', w')"
  shows "holds v' (take n xs @ replicate (n - length xs) (value_init T))
     \<and> Capacity v' = max (Capacity v) n
     \<and> (Capacity v < n \<longrightarrow> allocatable T n)
     \<and> (n = length xs \<longrightarrow> v' = v \<and> w' = w)
     \<and> (n < length xs \<longrightarrow> log w' = log w @ map Dtor (drop n xs))"
proof -
  let ?k = "length xs"
  from holdsD [OF h] have sz: "m_size v = ?k" and le: "?k \<le> Capacity v"
    and buf: "m_buffer (m_data v) = map Obj xs @ replicate (Capacity v - ?k) Raw"
    by simp_all
  consider (same) "n = ?k" | (grow) "?k < n" | (shrink) "n < ?k" by linarith
  then show ?thesis
  proof cases
    case same
    with ok h le show ?thesis by (simp add: Resize_def sz max_def)
  next
    case grow
    with ok obtain v1 w1 b where
      rs: "Reserve T n v w = Ok () (v1, w1)"
      and vc: "uninitialized_value_construct_n T (m_buffer (m_data v1)) (m_size v1)
                 (n - m_size v1) w1 = Ok () (b, w')"
      and v': "v' = (set_buffer v1 b)\<lparr>m_size := n\<rparr>"
      by (auto simp: Resize_def sz split: outcome.splits)
    have h1: "holds v1 xs \<and> Capacity v1 = max (Capacity v) n
        \<and> (Capacity v < n \<longrightarrow> allocatable T n)"
    proof (cases "n \<le> Capacity v")
      case True
      with rs h show ?thesis by (simp add: Reserve_def max_def)
    next
      case False
      then have lt: "Capacity v < n" by simp
      with ft have "fits T n" by simp
      from Reserve_Ok [OF h lt this rs] lt show ?thesis by (simp add: max_def)
    qed
    let ?c = "Capacity v1"
    from h1 grow have c: "n \<le> ?c" by simp
    from holdsD [of v1 xs] h1 have sz1: "m_size v1 = ?k"
      and buf1: "m_buffer (m_data v1) = map Obj xs @ replicate (?c - ?k) Raw"
      by simp_all
    have rs: "replicate (?c - ?k) Raw = replicate (n - ?k) Raw @ replicate (?c - n) Raw"
      using grow c by (simp flip: replicate_add)
    from vc have "uninitialized_value_construct_n T
        (map Obj xs @ replicate (n - ?k) Raw @ replicate (?c - n) Raw)
        (length (map Obj xs)) (length (replicate (n - ?k) (Raw :: 'a slot))) w1 = Ok () (b, w')"
      unfolding sz1 buf1 rs by simp
    from uninitialized_value_construct_n_Ok [OF this]
    have b: "b = map Obj (xs @ replicate (n - ?k) (value_init T)) @ replicate (?c - n) Raw"
      by simp
    have "holds v' (xs @ replicate (n - ?k) (value_init T))"
      using grow c
      by (intro holdsI [where c = ?c]) (simp_all add: v' set_buffer_def Capacity_def b)
    moreover have "Capacity v' = ?c" by (simp add: v' set_buffer_def Capacity_def)
    ultimately show ?thesis using grow h1 by simp
  next
    case shrink
    with ok obtain b where
      d: "destroy_n (m_buffer (m_data v)) n (?k - n) w = Ok () (b, w')"
      and v': "v' = (set_buffer v b)\<lparr>m_size := n\<rparr>"
      by (auto simp: Resize_def sz split: outcome.splits)
    have blk: "map Obj xs = map Obj (take n xs) @ map Obj (drop n xs)"
      by (simp flip: map_append)
    from d have "destroy_n (map Obj (take n xs) @ map Obj (drop n xs) @ replicate (Capacity v - ?k) Raw)
        (length (map Obj (take n xs))) (length (drop n xs)) w = Ok () (b, w')"
      unfolding buf blk using shrink by simp
    from destroy_n_objs_Ok [OF this]
    have b: "b = map Obj (take n xs) @ replicate (?k - n) Raw @ replicate (Capacity v - ?k) Raw"
      and lg: "log w' = log w @ map Dtor (drop n xs)"
      by simp_all
    have "replicate (?k - n) Raw @ replicate (Capacity v - ?k) (Raw :: 'a slot)
        = replicate (Capacity v - n) Raw"
      using shrink le by (simp flip: replicate_add)
    then have "holds v' (take n xs)"
      using shrink le
      by (intro holdsI [where c = "Capacity v"]) (simp_all add: v' set_buffer_def Capacity_def b)
    moreover have "Capacity v' = Capacity v" by (simp add: v' set_buffer_def Capacity_def)
    ultimately show ?thesis using shrink le lg by (simp add: max_def)
  qed
qed

lemma Emplace_grow_Ok:
  assumes h: "holds v xs" and pos: "pos < length xs" and full: "length xs = Capacity v"
    and ft: "fits T (max 1 (length xs * 2))"
    and ok: "Emplace T pos a v w = Ok r (v', w')"
  shows "holds v' (take pos xs @ arg_value a # drop pos xs) \<and> r = pos
     \<and> Capacity v' = max 1 (length xs * 2) \<and> allocatable T (max 1 (length xs * 2))
     \<and> log w' = log w @ [Alloc (max 1 (length xs * 2)), ctor_event a]
          @ map (relocation_event T) xs @ map Dtor (map (left_behind T) xs)
          @ [Free (Capacity v)]"
proof -
  let ?n = "length xs"
  let ?c = "max 1 (?n * 2)"
  let ?pre = "take pos xs"
  let ?post = "drop pos xs"
  let ?lb = "left_behind T"
  let ?x = "arg_value a"
  from holdsD [OF h] full have sz: "m_size v = ?n"
    and buf: "m_buffer (m_data v) = map Obj xs"
    by simp_all
  from ft have ft': "fits T (max 1 (m_size v * 2))" by (simp add: sz)
  from pos have lt: "pos < ?c" and lpre: "length ?pre = pos" and lpost: "length ?post = ?n - pos"
    by simp_all
  from ok pos full obtain nd w1 b w2 src dst w3 src' dst' w4 src'' w5 where
    a: "NewExpendedMem T v w = Ok nd w1"
    and c: "construct_at T a (m_buffer nd) pos w1 = Ok () (b, w2)"
    and r1: "relocate T (m_buffer (m_data v)) 0 pos b 0 w2 = Ok () (src, dst, w3)"
    and r2: "relocate T src pos (m_size v) dst (pos + 1) w3 = Ok () (src', dst', w4)"
    and d: "destroy_n src' 0 (m_size v) w4 = Ok () (src'', w5)"
    and v': "v' = v\<lparr>m_data := (m_data v)\<lparr>m_buffer := dst', m_capacity := m_capacity nd\<rparr>,
                    m_size := m_size v + 1\<rparr>"
    and w': "w' = RawMemory_dtor (nd\<lparr>m_buffer := src'', m_capacity := Capacity v\<rparr>) w5"
    and r: "r = pos"
    by (auto simp: Emplace_def RawMemory_Swap_def Capacity_def sz split: outcome.splits)
  from NewExpendedMem_Ok [OF a ft'] have nd: "m_buffer nd = replicate ?c Raw" "m_capacity nd = ?c"
    and l1: "log w1 = log w @ [Alloc ?c]" and al: "allocatable T ?c"
    by (simp_all add: sz)
  from c have "construct_at T a (replicate pos Raw @ Raw # replicate (?c - Suc pos) Raw)
      (length (replicate pos (Raw :: 'a slot))) w1 = Ok () (b, w2)"
    unfolding nd replicate_split [OF lt] by simp
  from construct_at_Ok [OF this]
  have b: "b = replicate pos Raw @ Obj ?x # replicate (?c - Suc pos) Raw"
    and l2: "log w2 = log w1 @ [ctor_event a]"
    by simp_all
  have xs: "map Obj xs = map Obj ?pre @ map Obj ?post"
    by (simp flip: map_append)
  from r1 have "relocate_n T ([] @ map Obj ?pre @ map Obj ?post) (length ([] :: 'a slot list))
      (length ?pre) ([] @ replicate pos Raw @ (Obj ?x # replicate (?c - Suc pos) Raw))
      (length ([] :: 'a slot list)) w2 = Ok () (src, dst, w3)"
    unfolding buf xs b using lpre by (simp add: relocate_eq)
  from relocate_n_Ok [OF this]
  have src: "src = map Obj (map ?lb ?pre) @ map Obj ?post @ []"
    and dst: "dst = map Obj ?pre @ Obj ?x # replicate (?c - Suc pos) Raw"
    and l3: "log w3 = log w2 @ map (relocation_event T) ?pre"
    using lpre by simp_all
  have tail: "replicate (?c - Suc pos) Raw
      = replicate (?n - pos) Raw @ replicate (?c - Suc ?n) (Raw :: 'a slot)"
    using pos by (simp flip: replicate_add)
  have dst2: "dst = (map Obj ?pre @ [Obj ?x]) @ replicate (?n - pos) Raw @ replicate (?c - Suc ?n) Raw"
    unfolding dst tail by simp
  from r2 have "relocate_n T (map Obj (map ?lb ?pre) @ map Obj ?post @ [])
      (length (map Obj (map ?lb ?pre))) (length ?post)
      ((map Obj ?pre @ [Obj ?x]) @ replicate (?n - pos) Raw @ replicate (?c - Suc ?n) Raw)
      (length (map Obj ?pre @ [Obj ?x])) w3 = Ok () (src', dst', w4)"
    unfolding src dst2 sz using pos by (simp add: relocate_eq)
  from relocate_n_Ok [OF this]
  have src': "src' = map Obj (map ?lb ?pre) @ map Obj (map ?lb ?post) @ []"
    and dst': "dst' = (map Obj ?pre @ [Obj ?x]) @ map Obj ?post @ replicate (?c - Suc ?n) Raw"
    and l4: "log w4 = log w3 @ map (relocation_event T) ?post"
    using pos by simp_all
  have "map Obj (map ?lb ?pre) @ map Obj (map ?lb ?post) = map Obj (map ?lb xs)"
    by (simp flip: map_append)
  then have src'2: "src' = [] @ map Obj (map ?lb xs) @ []"
    by (simp add: src')
  from d have "destroy_n ([] @ map Obj (map ?lb xs) @ []) (length ([] :: 'a slot list))
      (length (map ?lb xs)) w4 = Ok () (src'', w5)"
    unfolding src'2 sz by simp
  from destroy_n_objs_Ok [OF this] have src'': "src'' = replicate ?n Raw"
    and l5: "log w5 = log w4 @ map Dtor (map ?lb xs)"
    by simp_all
  have "map (relocation_event T) ?pre @ map (relocation_event T) ?post
      = map (relocation_event T) xs"
    by (simp flip: map_append)
  then have lg: "log w5 = log w @ [Alloc ?c, ctor_event a] @ map (relocation_event T) xs
      @ map Dtor (map ?lb xs)"
    by (simp add: l1 l2 l3 l4 l5)
  have "holds v' (?pre @ ?x # ?post)"
    using pos by (intro holdsI [where c = ?c]) (simp_all add: v' sz nd dst')
  moreover have "Capacity v' = ?c" by (simp add: v' Capacity_def nd)
  moreover have "log w' = log w @ [Alloc ?c, ctor_event a] @ map (relocation_event T) xs
      @ map Dtor (map ?lb xs) @ [Free (Capacity v)]"
    using pos full by (simp add: w' RawMemory_dtor_def src'' lg)
  ultimately show ?thesis using r al by simp
qed

lemma Emplace_inplace_Ok:
  assumes h: "holds v xs" and pos: "pos < length xs" and room: "length xs \<noteq> Capacity v"
    and ok: "Emplace T pos a v w = Ok r (v', w')"
  shows "holds v' (take pos xs @ arg_value a # drop pos xs) \<and> r = pos
     \<and> Capacity v' = Capacity v"
proof -
  let ?n = "length xs"
  let ?x = "arg_value a"
  let ?R = "replicate (Capacity v - Suc ?n) Raw"
  from holdsD [OF h] room have sz: "m_size v = ?n" and lt: "?n < Capacity v"
    and buf: "m_buffer (m_data v) = map Obj xs @ replicate (Capacity v - ?n) Raw"
    by simp_all
  from pos obtain ini l where xs: "xs = ini @ [l]"
    by (cases xs rule: rev_cases) auto
  define pre where "pre = take pos ini"
  define mid where "mid = drop pos ini"
  have ini: "ini = pre @ mid"
    by (simp add: pre_def mid_def)
  from pos have pl: "pos \<le> length ini" by (simp add: xs)
  then have lpre: "length pre = pos" and lmid: "length mid = length ini - pos"
    by (simp_all add: pre_def mid_def)
  have nn: "?n = Suc (length ini)" by (simp add: xs)
  have tk: "take pos xs = pre" and dr: "drop pos xs = mid @ [l]"
    using pl by (simp_all add: xs pre_def mid_def)
  have rs: "replicate (Capacity v - ?n) Raw = Raw # ?R"
    using lt by (cases "Capacity v - ?n") auto
  have blk: "map Obj xs @ replicate (Capacity v - ?n) Raw = map Obj ini @ Obj l # Raw # ?R"
    unfolding rs by (simp add: xs)
  from ok pos room obtain temp w1 b w2 b' w3 b'' w4 where
    ct: "construct T a w = Ok temp w1"
    and mc: "move_construct_at T (m_buffer (m_data v)) (?n - 1) ?n w1 = Ok () (b, w2)"
    and mb: "move_backward T b pos (?n - 1) ?n w2 = Ok () (b', w3)"
    and ma: "move_assign_from temp b' pos w3 = Ok () (b'', w4)"
    and v': "v' = (set_buffer v b'')\<lparr>m_size := ?n + 1\<rparr>"
    and r: "r = pos"
    by (auto simp: Emplace_def Capacity_def sz split: outcome.splits if_splits)
  from construct_Ok [OF ct] have temp: "temp = ?x" by simp
  from mc have "move_construct_at T (map Obj ini @ Obj l # Raw # ?R)
      (length (map Obj ini)) (Suc (length (map Obj ini))) w1 = Ok () (b, w2)"
    unfolding buf blk by (simp add: nn)
  from move_construct_at_Ok [OF this]
  have "b = map Obj ini @ Obj (moved_from T l) # Obj l # ?R"
    by simp
  then have b: "b = map Obj pre @ map Obj mid @ Obj (moved_from T l) # (Obj l # ?R)"
    by (simp add: ini)
  have idx: "?n - 1 = length (map Obj pre) + length mid" "?n = Suc (length (map Obj pre) + length mid)"
    "?n - 1 - pos = length mid"
    using pl by (simp_all add: nn lpre lmid)
  from mb pl have "move_backward_n T b (?n - 1) (?n - 1 - pos) ?n w2 = Ok () (b', w3)"
    by (simp add: move_backward_def nn)
  then have "move_backward_n T (map Obj pre @ map Obj mid @ Obj (moved_from T l) # (Obj l # ?R))
      (length (map Obj pre) + length mid) (length mid)
      (Suc (length (map Obj pre) + length mid)) w2 = Ok () (b', w3)"
    unfolding b using idx by simp
  from move_backward_n_Ok [OF this] obtain z where
    b': "b' = map Obj pre @ Obj z # map Obj mid @ (Obj l # ?R)"
    by simp
  from ma have "move_assign_from temp (map Obj pre @ Obj z # map Obj mid @ (Obj l # ?R))
      (length (map Obj pre)) w3 = Ok () (b'', w4)"
    unfolding b' using lpre by simp
  from move_assign_from_Ok [OF this]
  have "b'' = map Obj pre @ Obj ?x # map Obj mid @ (Obj l # ?R)"
    by (simp add: temp)
  then have b'': "b'' = map Obj (take pos xs @ ?x # drop pos xs) @ ?R"
    by (simp add: tk dr)
  have "holds v' (take pos xs @ ?x # drop pos xs)"
    using pos lt
    by (intro holdsI [where c = "Capacity v"]) (simp_all add: v' set_buffer_def Capacity_def b'')
  moreover have "Capacity v' = Capacity v" by (simp add: v' set_buffer_def Capacity_def)
  ultimately show ?thesis using r by simp
qed

lemma holds_at: "holds v xs \<Longrightarrow> i < length xs \<Longrightarrow> at v i = Some (xs ! i)"
  by (simp add: holds_def at_def slot_at_def nth_append)

subsection \<open>Facts used by the claims\<close>

lemma representable_iff:
  "representable T v \<longleftrightarrow> allocatable T 1 \<and> allocatable T (Capacity v)"
proof (cases "Capacity v = 0")
  case True
  then show ?thesis
    by (auto simp: representable_def Capacity_def allocatable_def)
next
  case False
  then have "max 1 (Capacity v) = Capacity v" "1 \<le> Capacity v" by simp_all
  then show ?thesis
    unfolding representable_def Capacity_def [symmetric]
    by (auto intro: allocatable_mono)
qed

lemma wellformed_holds: "wellformed T v xs \<Longrightarrow> holds v xs"
  by (simp add: wellformed_def)

lemma wellformedI:
  "holds v xs \<Longrightarrow> allocatable T 1 \<Longrightarrow> allocatable T (Capacity v) \<Longrightarrow> wellformed T v xs"
  by (simp add: wellformed_def representable_iff)

lemma wellformed_allocatable: "wellformed T v xs \<Longrightarrow> allocatable T 1 \<and> allocatable T (Capacity v)"
  by (simp add: wellformed_def representable_iff)

lemma wellformed_fits_grow:
  assumes h: "wellformed T v xs"
  shows "fits T (max 1 (length xs * 2))"
proof (cases xs)
  case Nil
  with wellformed_allocatable [OF h] show ?thesis by (simp add: allocatable_fits)
next
  case (Cons y ys)
  from holdsD [OF wellformed_holds [OF h]] have "length xs \<le> Capacity v" by simp
  with wellformed_allocatable [OF h] have "allocatable T (length xs)"
    by (auto intro: allocatable_mono)
  from allocatable_double [OF this] Cons show ?thesis by (simp add: max_def)
qed

lemma added_append: "log w' = log w @ l \<Longrightarrow> added w w' = l"
  by (simp add: added_def)

lemma EmplaceBack_wellformed:
  assumes h: "wellformed T v xs" and ok: "EmplaceBack T a v w = Ok r (v', w')"
  shows "wellformed T v' (xs @ [arg_value a]) \<and> r = length xs
     \<and> (if length xs = Capacity v
         then Capacity v' = max 1 (length xs * 2)
           \<and> log w' = log w @ [Alloc (max 1 (length xs * 2)), ctor_event a]
                @ map (relocation_event T) xs @ map Dtor (map (left_behind T) xs)
                @ [Free (Capacity v)]
         else Capacity v' = Capacity v \<and> log w' = log w @ [ctor_event a])"
proof -
  note e = EmplaceBack_Ok [OF wellformed_holds [OF h] wellformed_fits_grow [OF h] ok]
  from e wellformed_allocatable [OF h] have "allocatable T (Capacity v')"
    by (auto split: if_splits)
  with e wellformed_allocatable [OF h] have "wellformed T v' (xs @ [arg_value a])"
    by (intro wellformedI) simp_all
  with e show ?thesis by (simp split: if_splits)
qed

lemma Emplace_Ok:
  assumes h: "wellformed T v xs" and pos: "pos \<le> length xs"
    and ok: "Emplace T pos a v w = Ok r (v', w')"
  shows "wellformed T v' (take pos xs @ arg_value a # drop pos xs) \<and> r = pos
     \<and> Capacity v' = (if length xs = Capacity v then max 1 (length xs * 2) else Capacity v)"
proof (cases "pos = length xs")
  case True
  from holdsD [OF wellformed_holds [OF h]] have "m_size v = length xs" by simp
  with ok True have "EmplaceBack T a v w = Ok r (v', w')"
    by (simp add: Emplace_def)
  from EmplaceBack_wellformed [OF h this] True show ?thesis
    by (simp split: if_splits)
next
  case False
  with pos have lt: "pos < length xs" by simp
  note al = wellformed_allocatable [OF h]
  show ?thesis
  proof (cases "length xs = Capacity v")
    case True
    note e = Emplace_grow_Ok [OF wellformed_holds [OF h] lt True wellformed_fits_grow [OF h] ok]
    with al have "wellformed T v' (take pos xs @ arg_value a # drop pos xs)"
      by (intro wellformedI) simp_all
    with e True show ?thesis by simp
  next
    case False
    note e = Emplace_inplace_Ok [OF wellformed_holds [OF h] lt False ok]
    with al have "wellformed T v' (take pos xs @ arg_value a # drop pos xs)"
      by (intro wellformedI) simp_all
    with e False show ?thesis by simp
  qed
qed

lemma PushBack_Ok:
  assumes h: "wellformed T v xs" and ok: "PushBack T x v w = Ok r (v', w')"
  shows "wellformed T v' (xs @ [x])
     \<and> Capacity v' = (if length xs = Capacity v then max 1 (length xs * 2) else Capacity v)"
proof -
  from ok obtain r0 where "EmplaceBack T (ByCopy x) v w = Ok r0 (v', w')"
    by (auto simp: PushBack_EmplaceBack split: outcome.splits)
  from EmplaceBack_wellformed [OF h this] show ?thesis by (simp split: if_splits)
qed

lemma doubling_step:
  fixes n c :: nat
  assumes "n = 0 \<and> c = 0 \<or> (\<exists>k. c = 2 ^ k \<and> n \<le> c \<and> c < 2 * n)"
    and "c' = (if n = c then max 1 (n * 2) else c)"
  shows "\<exists>k. c' = 2 ^ k \<and> Suc n \<le> c' \<and> c' < 2 * Suc n"
proof (cases "n = c")
  case True
  show ?thesis
  proof (cases "n = 0")
    case True
    with \<open>n = c\<close> assms(2) have "c' = 2 ^ 0" by simp
    with True show ?thesis by (intro exI [of _ 0]) simp
  next
    case False
    with assms(1) \<open>n = c\<close> obtain k where k: "c = 2 ^ k" by auto
    from False \<open>n = c\<close> assms(2) have "c' = 2 ^ Suc k" by (simp add: k max_def)
    with False \<open>n = c\<close> k show ?thesis by (intro exI [of _ "Suc k"]) simp
  qed
next
  case False
  with assms obtain k where "c = 2 ^ k" "n \<le> c" "c < 2 * n" "c' = c" by auto
  with False show ?thesis by (intro exI [of _ k]) simp
qed

lemma push_all_Ok:
  assumes "wellformed T v xs" and "push_all T ys v w = Ok r (v', w')"
    and "length xs = 0 \<and> Capacity v = 0
         \<or> (\<exists>k. Capacity v = 2 ^ k \<and> length xs \<le> Capacity v \<and> Capacity v < 2 * length xs)"
  shows "wellformed T v' (xs @ ys)
     \<and> (length (xs @ ys) = 0 \<and> Capacity v' = 0
        \<or> (\<exists>k. Capacity v' = 2 ^ k \<and> length (xs @ ys) \<le> Capacity v'
              \<and> Capacity v' < 2 * length (xs @ ys)))"
  using assms
proof (induction ys arbitrary: v xs w)
  case Nil
  then show ?case by simp
next
  case (Cons y ys)
  from Cons.prems(2) obtain v1 w1 where
    p: "PushBack T y v w = Ok () (v1, w1)" and rest: "push_all T ys v1 w1 = Ok r (v', w')"
    by (auto split: outcome.splits)
  from PushBack_Ok [OF Cons.prems(1) p]
  have h1: "wellformed T v1 (xs @ [y])"
    and c1: "Capacity v1 = (if length xs = Capacity v then max 1 (length xs * 2) else Capacity v)"
    by simp_all
  from doubling_step [OF Cons.prems(3) c1]
  have "\<exists>k. Capacity v1 = 2 ^ k \<and> length (xs @ [y]) \<le> Capacity v1
      \<and> Capacity v1 < 2 * length (xs @ [y])"
    by simp
  with Cons.IH [OF h1 rest] show ?case by simp
qed

lemma PushBack_rvalue_Ok:
  assumes h: "holds v xs" and ok: "PushBack_rvalue T x v w = Ok r (v', w')"
  shows "\<exists>r0. EmplaceBack T (ByMove x) v w = Ok r0 (v', w')"
  using ok by (auto simp: PushBack_rvalue_EmplaceBack split: outcome.splits)

lemma PushBack_OkD:
  assumes ok: "PushBack T x v w = Ok r (v', w')"
  shows "\<exists>r0. EmplaceBack T (ByCopy x) v w = Ok r0 (v', w')"
  using ok by (auto simp: PushBack_EmplaceBack split: outcome.splits)

lemma failed_growth_logs_iff:
  "l \<in> set (failed_growth_logs a xs) \<longleftrightarrow>
     l = [] \<or> l = [Alloc (max 1 (length xs * 2)), Free (max 1 (length xs * 2))]
     \<or> (\<exists>k<length xs. l = [Alloc (max 1 (length xs * 2)), ctor_event a]
            @ map CopyCtor (take k xs) @ map Dtor (take k xs) @ [Free (max 1 (length xs * 2))])"
  by (auto simp: failed_growth_logs_def Let_def)

subsection \<open>Runs in which nothing throws\<close>

lemma schedule_logged [simp]: "schedule (logged l w) = schedule w"
  by (simp add: logged_def)

lemma log_logged [simp]: "log (logged l w) = log w @ l"
  by (simp add: logged_def)

lemma logged_logged [simp]: "logged l2 (logged l1 w) = logged (l1 @ l2) w"
  by (simp add: logged_def)

lemma logged_Nil [simp]: "logged [] w = w"
  by (simp add: logged_def)

lemma record_ev_logged: "record_ev ev w = logged [ev] w"
  by (simp add: record_ev_def logged_def)

lemma attempt_quiet: "schedule w = [] \<Longrightarrow> attempt ev w = (True, logged [ev] w)"
  by (simp add: attempt_def record_ev_logged)

lemma construct_quiet:
  "schedule w = [] \<Longrightarrow> construct T a w = Ok (arg_value a) (logged [ctor_event a] w)"
  by (simp add: construct_def attempt_quiet record_ev_logged)

lemma construct_at_quiet:
  "schedule w = [] \<Longrightarrow>
   construct_at T a (A @ y # B) (length A) w = Ok () (A @ Obj (arg_value a) # B, logged [ctor_event a] w)"
  by (simp add: construct_at_def construct_quiet)

lemma Allocate_quiet:
  assumes q: "schedule w = []" and al: "allocatable T n"
  shows "Allocate T n w = Ok (replicate n Raw) (logged (if n = 0 then [] else [Alloc n]) w)"
proof -
  from al PTRDIFF_MAX_less(1) have "n * size_of T < SIZE_MOD" "\<not> PTRDIFF_MAX < n * size_of T"
    "0 < size_of T"
    by (simp_all add: allocatable_def)
  then show ?thesis by (simp add: Allocate_def Let_def attempt_quiet [OF q])
qed

lemma RawMemory_new_quiet:
  "schedule w = [] \<Longrightarrow> allocatable T n \<Longrightarrow>
   RawMemory_new T n w
     = Ok \<lparr>m_buffer = replicate n Raw, m_capacity = n\<rparr> (logged (if n = 0 then [] else [Alloc n]) w)"
  by (simp add: RawMemory_new_def Allocate_quiet)

lemma NewExpendedMem_quiet:
  assumes q: "schedule w = []" and al: "allocatable T (max 1 (m_size v * 2))"
  shows "NewExpendedMem T v w
     = Ok \<lparr>m_buffer = replicate (max 1 (m_size v * 2)) Raw, m_capacity = max 1 (m_size v * 2)\<rparr>
         (logged (if max 1 (m_size v * 2) = 0 then [] else [Alloc (max 1 (m_size v * 2))]) w)"
  unfolding NewExpendedMem_def NewExpendedMem_capacity [OF allocatable_fits [OF al]]
  by (rule RawMemory_new_quiet [OF q al])

lemma destroy_n_logged:
  "destroy_n (A @ map Obj xs @ B) (length A) (length xs) w
     = Ok () (A @ replicate (length xs) Raw @ B, logged (map Dtor xs) w)"
  by (simp add: destroy_n_objs logged_def)

lemma copy_loop_quiet:
  "schedule w = [] \<Longrightarrow> length ys = length xs \<Longrightarrow>
   copy_loop (S1 @ map Obj xs @ S2) (length S1) (length xs) (D1 @ ys @ D2) (length D1) w
     = Ok () (D1 @ map Obj xs @ D2, length D1 + length xs, logged (map CopyCtor xs) w)"
proof (induction xs arbitrary: S1 D1 ys w)
  case Nil
  then show ?case by simp
next
  case (Cons x xs)
  then obtain y ys' where ys: "ys = y # ys'" and len: "length ys' = length xs"
    by (cases ys) auto
  from Cons.prems(1) have q: "schedule (logged [CopyCtor x] w) = []" by simp
  have "copy_loop (S1 @ map Obj (x # xs) @ S2) (length S1) (length (x # xs)) (D1 @ ys @ D2) (length D1) w
      = copy_loop ((S1 @ [Obj x]) @ map Obj xs @ S2) (length (S1 @ [Obj x])) (length xs)
          ((D1 @ [Obj x]) @ ys' @ D2) (length (D1 @ [Obj x])) (logged [CopyCtor x] w)"
    using Cons.prems(1) by (simp add: ys attempt_quiet)
  also note Cons.IH [OF q len]
  finally show ?case by simp
qed

lemma uninitialized_copy_n_quiet:
  "schedule w = [] \<Longrightarrow> length ys = length xs \<Longrightarrow>
   uninitialized_copy_n (S1 @ map Obj xs @ S2) (length S1) (length xs) (D1 @ ys @ D2) (length D1) w
     = Ok () (D1 @ map Obj xs @ D2, logged (map CopyCtor xs) w)"
  by (simp add: uninitialized_copy_n_def copy_loop_quiet)

lemma move_loop_quiet:
  "schedule w = [] \<Longrightarrow> length ys = length xs \<Longrightarrow>
   move_loop T (S1 @ map Obj xs @ S2) (length S1) (length xs) (D1 @ ys @ D2) (length D1) w
     = Ok () (S1 @ map (\<lambda>x. Obj (moved_from T x)) xs @ S2, D1 @ map Obj xs @ D2,
          length D1 + length xs, logged (map MoveCtor xs) w)"
proof (induction xs arbitrary: S1 D1 ys w)
  case Nil
  then show ?case by simp
next
  case (Cons x xs)
  then obtain y ys' where ys: "ys = y # ys'" and len: "length ys' = length xs"
    by (cases ys) auto
  from Cons.prems(1) have q: "schedule (logged [MoveCtor x] w) = []" by simp
  have "move_loop T (S1 @ map Obj (x # xs) @ S2) (length S1) (length (x # xs)) (D1 @ ys @ D2) (length D1) w
      = move_loop T ((S1 @ [Obj (moved_from T x)]) @ map Obj xs @ S2)
          (length (S1 @ [Obj (moved_from T x)])) (length xs)
          ((D1 @ [Obj x]) @ ys' @ D2) (length (D1 @ [Obj x])) (logged [MoveCtor x] w)"
    using Cons.prems(1) by (simp add: ys construct_quiet)
  also note Cons.IH [OF q len]
  finally show ?case by simp
qed

lemma uninitialized_move_n_quiet:
  "schedule w = [] \<Longrightarrow> length ys = length xs \<Longrightarrow>
   uninitialized_move_n T (S1 @ map Obj xs @ S2) (length S1) (length xs) (D1 @ ys @ D2) (length D1) w
     = Ok () (S1 @ map (\<lambda>x. Obj (moved_from T x)) xs @ S2, D1 @ map Obj xs @ D2,
          logged (map MoveCtor xs) w)"
  by (simp add: uninitialized_move_n_def move_loop_quiet)

lemma relocate_n_quiet:
  "schedule w = [] \<Longrightarrow> length ys = length xs \<Longrightarrow>
   relocate_n T (S1 @ map Obj xs @ S2) (length S1) (length xs) (D1 @ ys @ D2) (length D1) w
     = Ok () (S1 @ map Obj (map (left_behind T) xs) @ S2, D1 @ map Obj xs @ D2,
          logged (map (relocation_event T) xs) w)"
  by (simp add: relocate_n_def uninitialized_move_n_quiet uninitialized_copy_n_quiet
      left_behind_def relocation_event_def o_def)

lemma value_construct_loop_quiet:
  "schedule w = [] \<Longrightarrow>
   value_construct_loop T (D1 @ ys @ D2) (length D1) (length ys) w
     = Ok () (D1 @ replicate (length ys) (Obj (value_init T)) @ D2, length D1 + length ys,
          logged (replicate (length ys) (ValueCtor (value_init T))) w)"
proof (induction ys arbitrary: D1 w)
  case Nil
  then show ?case by simp
next
  case (Cons y ys)
  from Cons.prems have q: "schedule (logged [ValueCtor (value_init T)] w) = []" by simp
  have "value_construct_loop T (D1 @ (y # ys) @ D2) (length D1) (length (y # ys)) w
      = value_construct_loop T ((D1 @ [Obj (value_init T)]) @ ys @ D2)
          (length (D1 @ [Obj (value_init T)])) (length ys) (logged [ValueCtor (value_init T)] w)"
    using Cons.prems by (simp add: attempt_quiet)
  also note Cons.IH [OF q]
  finally show ?case by (simp add: replicate_append_same)
qed

lemma uninitialized_value_construct_n_quiet:
  "schedule w = [] \<Longrightarrow>
   uninitialized_value_construct_n T (D1 @ ys @ D2) (length D1) (length ys) w
     = Ok () (D1 @ replicate (length ys) (Obj (value_init T)) @ D2,
          logged (replicate (length ys) (ValueCtor (value_init T))) w)"
  by (simp add: uninitialized_value_construct_n_def value_construct_loop_quiet)

lemma move_assign_at_down_quiet:
  "schedule w = [] \<Longrightarrow>
   move_assign_at T (P @ Obj y # Obj x # B) (Suc (length P)) (length P) w
     = Ok () (P @ Obj x # Obj (moved_from T x) # B, logged [MoveAssign x] w)"
  by (simp add: move_assign_at_def attempt_quiet)

lemma move_assign_at_up_quiet:
  "schedule w = [] \<Longrightarrow>
   move_assign_at T (P @ Obj x # Obj y # B) (length P) (Suc (length P)) w
     = Ok () (P @ Obj (moved_from T x) # Obj x # B, logged [MoveAssign x] w)"
  by (simp add: move_assign_at_def attempt_quiet)

lemma move_n_quiet:
  "schedule w = [] \<Longrightarrow>
   move_n T (A @ Obj y # map Obj xs @ B) (Suc (length A)) (length xs) (length A) w
     = Ok () (A @ map Obj xs @ Obj (last (y # map (moved_from T) xs)) # B,
          logged (map MoveAssign xs) w)"
proof (induction xs arbitrary: A y w)
  case Nil
  then show ?case by simp
next
  case (Cons x xs)
  from Cons.prems have q: "schedule (logged [MoveAssign x] w) = []" by simp
  have "move_n T (A @ Obj y # map Obj (x # xs) @ B) (Suc (length A)) (length (x # xs)) (length A) w
      = move_n T ((A @ [Obj x]) @ Obj (moved_from T x) # map Obj xs @ B)
          (Suc (length (A @ [Obj x]))) (length xs) (length (A @ [Obj x])) (logged [MoveAssign x] w)"
    using move_assign_at_down_quiet [OF Cons.prems, of T A y x "map Obj xs @ B"] by simp
  also note Cons.IH [OF q]
  finally show ?case by simp
qed

lemma move_backward_n_quiet:
  "schedule w = [] \<Longrightarrow>
   move_backward_n T (A @ map Obj xs @ Obj y # B) (length A + length xs) (length xs)
       (Suc (length A + length xs)) w
     = Ok () (A @ Obj (hd (map (moved_from T) xs @ [y])) # map Obj xs @ B,
          logged (map MoveAssign (rev xs)) w)"
proof (induction xs arbitrary: y B w rule: rev_induct)
  case Nil
  then show ?case by simp
next
  case (snoc x xs)
  let ?P = "A @ map Obj xs"
  from snoc.prems have q: "schedule (logged [MoveAssign x] w) = []" by simp
  have "move_backward_n T (A @ map Obj (xs @ [x]) @ Obj y # B) (length A + length (xs @ [x]))
          (length (xs @ [x])) (Suc (length A + length (xs @ [x]))) w
      = move_backward_n T (A @ map Obj xs @ Obj (moved_from T x) # (Obj x # B))
          (length A + length xs) (length xs) (Suc (length A + length xs)) (logged [MoveAssign x] w)"
    using move_assign_at_up_quiet [OF snoc.prems, of T ?P x y B] by simp
  also note snoc.IH [OF q]
  finally show ?case by (cases xs) simp_all
qed

lemma move_construct_at_quiet:
  "schedule w = [] \<Longrightarrow>
   move_construct_at T (P @ Obj x # y # B) (length P) (Suc (length P)) w
     = Ok () (P @ Obj (moved_from T x) # Obj x # B, logged [MoveCtor x] w)"
  by (simp add: move_construct_at_def construct_quiet)

lemma move_assign_from_quiet:
  "schedule w = [] \<Longrightarrow>
   move_assign_from temp (P @ Obj z # B) (length P) w
     = Ok () (P @ Obj temp # B, logged [MoveAssign temp] w)"
  by (simp add: move_assign_from_def attempt_quiet)

lemma Realloc_quiet:
  assumes h: "holds v xs" and nb: "m_buffer nd = ys @ D2" and len: "length ys = length xs"
    and q: "schedule w = []"
  shows "\<exists>v' nd' w'. Realloc T nd v w = Ok () (v', nd', w') \<and> schedule w' = []"
proof -
  let ?R = "replicate (Capacity v - length xs) Raw"
  let ?src = "[] @ map Obj (map (left_behind T) xs) @ ?R"
  let ?dst = "[] @ map Obj xs @ D2"
  let ?w1 = "logged (map (relocation_event T) xs) w"
  let ?src' = "[] @ replicate (length (map (left_behind T) xs)) Raw @ ?R"
  let ?w2 = "logged (map Dtor (map (left_behind T) xs)) ?w1"
  from holdsD [OF h] have sz: "m_size v = length xs"
    and buf: "m_buffer (m_data v) = map Obj xs @ ?R"
    by simp_all
  have "relocate_n T (m_buffer (m_data v)) 0 (m_size v) (m_buffer nd) 0 w
      = relocate_n T ([] @ map Obj xs @ ?R) (length ([] :: 'a slot list)) (length xs)
          ([] @ ys @ D2) (length ([] :: 'a slot list)) w"
    by (simp add: sz buf nb)
  also note relocate_n_quiet [OF q len]
  finally have s1: "relocate_n T (m_buffer (m_data v)) 0 (m_size v) (m_buffer nd) 0 w
      = Ok () (?src, ?dst, ?w1)" .
  have "destroy_n ?src 0 (m_size v) ?w1
      = destroy_n ?src (length ([] :: 'a slot list)) (length (map (left_behind T) xs)) ?w1"
    by (simp add: sz)
  also note destroy_n_logged
  finally have s2: "destroy_n ?src 0 (m_size v) ?w1 = Ok () (?src', ?w2)" .
  show ?thesis
    by (simp only: Realloc_def s1 outcome.case prod.case s2) (simp add: RawMemory_Swap_def q)
qed

lemma schedule_record_ev [simp]: "schedule (record_ev ev w) = schedule w"
  by (simp add: record_ev_def)

lemma schedule_Deallocate [simp]: "schedule (Deallocate b w) = schedule w"
  by (simp add: Deallocate_def)

lemma schedule_RawMemory_dtor [simp]: "schedule (RawMemory_dtor m w) = schedule w"
  by (simp add: RawMemory_dtor_def)

lemma Reserve_quiet:
  assumes h: "holds v xs" and q: "schedule w = []"
    and al: "n \<le> Capacity v \<or> allocatable T n"
  shows "\<exists>v' w'. Reserve T n v w = Ok () (v', w') \<and> schedule w' = []"
proof (cases "n \<le> Capacity v")
  case True
  with q show ?thesis by (simp add: Reserve_def)
next
  case False
  let ?R = "replicate (Capacity v - length xs) Raw"
  from holdsD [OF h] have sz: "m_size v = length xs" and le: "length xs \<le> Capacity v"
    and buf: "m_buffer (m_data v) = map Obj xs @ ?R"
    by simp_all
  from False le have n: "length xs \<le> n" "n \<noteq> 0" by simp_all
  let ?nd = "\<lparr>m_buffer = replicate n Raw, m_capacity = n\<rparr> :: 'a RawMemory"
  let ?w1 = "logged (if n = 0 then [] else [Alloc n]) w"
  let ?src = "[] @ map Obj (map (left_behind T) xs) @ ?R"
  let ?dst = "[] @ map Obj xs @ replicate (n - length xs) Raw"
  let ?w2 = "logged (map (relocation_event T) xs) ?w1"
  let ?src' = "[] @ replicate (length (map (left_behind T) xs)) Raw @ ?R"
  let ?w3 = "logged (map Dtor (map (left_behind T) xs)) ?w2"
  from q have q1: "schedule ?w1 = []" by simp
  have c: "(n \<le> Capacity v) = False" using False by simp
  from al False have al': "allocatable T n" by simp
  have s1: "RawMemory_new T n w = Ok ?nd ?w1"
    by (rule RawMemory_new_quiet [OF q al'])
  have new: "replicate n Raw = [] @ replicate (length xs) Raw @ replicate (n - length xs) Raw"
    using n by (simp add: replicate_add [symmetric])
  have "relocate_n T (m_buffer (m_data v)) 0 (m_size v) (m_buffer ?nd) 0 ?w1
      = relocate_n T ([] @ map Obj xs @ ?R) (length ([] :: 'a slot list)) (length xs)
          ([] @ replicate (length xs) Raw @ replicate (n - length xs) Raw)
          (length ([] :: 'a slot list)) ?w1"
    unfolding sz buf by (subst new) simp
  also have "\<dots> = Ok () (?src, ?dst, ?w2)"
    by (rule relocate_n_quiet [OF q1]) simp
  finally have s2: "relocate_n T (m_buffer (m_data v)) 0 (m_size v) (m_buffer ?nd) 0 ?w1
      = Ok () (?src, ?dst, ?w2)" .
  have "destroy_n ?src 0 (m_size v) ?w2
      = destroy_n ?src (length ([] :: 'a slot list)) (length (map (left_behind T) xs)) ?w2"
    by (simp add: sz)
  also note destroy_n_logged
  finally have s3: "destroy_n ?src 0 (m_size v) ?w2 = Ok () (?src', ?w3)" .
  show ?thesis
    by (simp only: Reserve_def c if_False s1 outcome.case s2 prod.case s3)
      (simp add: RawMemory_Swap_def q)
qed

lemma EmplaceBack_quiet:
  assumes h: "holds v xs" and q: "schedule w = []"
    and al: "length xs < Capacity v \<or> allocatable T (max 1 (length xs * 2))"
  shows "\<exists>v' w'. EmplaceBack T a v w = Ok (length xs) (v', w') \<and> schedule w' = []"
proof -
  let ?n = "length xs"
  let ?c = "max 1 (?n * 2)"
  from holdsD [OF h] have sz: "m_size v = ?n" and le: "?n \<le> Capacity v"
    and buf: "m_buffer (m_data v) = map Obj xs @ replicate (Capacity v - ?n) Raw"
    by simp_all
  show ?thesis
  proof (cases "?n = Capacity v")
    case True
    have lt: "?n < ?c" by simp
    let ?nm = "\<lparr>m_buffer = replicate ?c Raw, m_capacity = ?c\<rparr> :: 'a RawMemory"
    let ?w1 = "logged (if ?c = 0 then [] else [Alloc ?c]) w"
    let ?w2 = "logged [ctor_event a] ?w1"
    let ?b = "replicate ?n Raw @ Obj (arg_value a) # replicate (?c - Suc ?n) Raw"
    from q have q1: "schedule ?w1 = []" and q2: "schedule ?w2 = []" by simp_all
    have c: "(m_size v = Capacity v) = True" using True sz by simp
    from al True have "allocatable T (max 1 (m_size v * 2))" by (simp add: sz)
    from NewExpendedMem_quiet [OF q this] have s1: "NewExpendedMem T v w = Ok ?nm ?w1"
      unfolding sz .
    have "construct_at T a (m_buffer ?nm) (m_size v) ?w1
        = construct_at T a (replicate ?n Raw @ Raw # replicate (?c - Suc ?n) Raw)
            (length (replicate ?n (Raw :: 'a slot))) ?w1"
      unfolding sz by (subst replicate_split [OF lt]) simp
    also note construct_at_quiet [OF q1]
    finally have s2: "construct_at T a (m_buffer ?nm) (m_size v) ?w1 = Ok () (?b, ?w2)" .
    have "m_buffer (?nm\<lparr>m_buffer := ?b\<rparr>)
        = replicate ?n Raw @ (Obj (arg_value a) # replicate (?c - Suc ?n) Raw)"
      by simp
    from Realloc_quiet [OF h this _ q2, of T] obtain v1 nm' w3 where
      s3: "Realloc T (?nm\<lparr>m_buffer := ?b\<rparr>) v ?w2 = Ok () (v1, nm', w3)"
      and q3: "schedule w3 = []"
      by auto
    show ?thesis
      by (simp only: EmplaceBack_def c if_True s1 outcome.case s2 prod.case s3)
        (simp add: sz q3)
  next
    case False
    with le have lt: "?n < Capacity v" by simp
    have c: "(m_size v = Capacity v) = False" using False sz by simp
    have rs: "replicate (Capacity v - ?n) Raw = Raw # replicate (Capacity v - Suc ?n) Raw"
      using lt by (cases "Capacity v - ?n") auto
    have "construct_at T a (m_buffer (m_data v)) (m_size v) w
        = construct_at T a (map Obj xs @ Raw # replicate (Capacity v - Suc ?n) Raw)
            (length (map Obj xs)) w"
      by (simp add: sz buf rs)
    also note construct_at_quiet [OF q]
    finally have s: "construct_at T a (m_buffer (m_data v)) (m_size v) w
        = Ok () (map Obj xs @ Obj (arg_value a) # replicate (Capacity v - Suc ?n) Raw,
            logged [ctor_event a] w)" .
    show ?thesis
      by (simp only: EmplaceBack_def c if_False s outcome.case prod.case) (simp add: sz q)
  qed
qed

lemma PushBack_quiet:
  assumes h: "holds v xs" and q: "schedule w = []"
    and al: "length xs < Capacity v \<or> allocatable T (max 1 (length xs * 2))"
  shows "\<exists>v' w'. PushBack T x v w = Ok () (v', w') \<and> schedule w' = []"
  using EmplaceBack_quiet [OF h q al, of "ByCopy x"] by (auto simp: PushBack_EmplaceBack)

lemma PushBack_rvalue_quiet:
  assumes h: "holds v xs" and q: "schedule w = []"
    and al: "length xs < Capacity v \<or> allocatable T (max 1 (length xs * 2))"
  shows "\<exists>v' w'. PushBack_rvalue T x v w = Ok () (v', w') \<and> schedule w' = []"
  using EmplaceBack_quiet [OF h q al, of "ByMove x"] by (auto simp: PushBack_rvalue_EmplaceBack)

lemma push_all_quiet:
  assumes "wellformed T v xs" and "schedule w = []"
    and "allocatable T (max 1 (length (xs @ ys) * 2))"
  shows "\<exists>v' w'. push_all T ys v w = Ok () (v', w') \<and> schedule w' = []"
  using assms
proof (induction ys arbitrary: v xs w)
  case Nil
  then show ?case by simp
next
  case (Cons y ys)
  have "allocatable T (max 1 (length xs * 2))"
    by (rule allocatable_mono [OF Cons.prems(3)]) simp
  then have "length xs < Capacity v \<or> allocatable T (max 1 (length xs * 2))" ..
  from PushBack_quiet [OF wellformed_holds [OF Cons.prems(1)] Cons.prems(2) this, of y]
  obtain v1 w1 where
    p: "PushBack T y v w = Ok () (v1, w1)" and q1: "schedule w1 = []"
    by auto
  from PushBack_Ok [OF Cons.prems(1) p] have h1: "wellformed T v1 (xs @ [y])" by simp
  from Cons.prems(3) have "allocatable T (max 1 (length ((xs @ [y]) @ ys) * 2))" by simp
  from Cons.IH [OF h1 q1 this] p show ?case by simp
qed

lemma Erase_quiet:
  assumes h: "holds v xs" and pos: "pos < length xs" and q: "schedule w = []"
  shows "\<exists>v' w'. Erase T pos v w = Ok pos (v', w') \<and> schedule w' = []"
proof -
  let ?n = "length xs"
  let ?R = "replicate (Capacity v - ?n) Raw"
  let ?pre = "take pos xs"
  let ?post = "drop (Suc pos) xs"
  let ?z = "last (xs ! pos # map (moved_from T) ?post)"
  let ?P = "map Obj ?pre @ map Obj ?post"
  from holdsD [OF h] have sz: "m_size v = ?n"
    and buf: "m_buffer (m_data v) = map Obj xs @ ?R"
    by simp_all
  from pos have xs: "xs = ?pre @ xs ! pos # ?post"
    by (simp add: id_take_nth_drop)
  have lpre: "length ?pre = pos" and lpost: "length ?post = ?n - Suc pos"
    using pos by simp_all
  have blk: "map Obj xs @ ?R = map Obj ?pre @ Obj (xs ! pos) # map Obj ?post @ ?R"
    by (subst xs) simp
  let ?w1 = "logged (map MoveAssign ?post) w"
  let ?b1 = "map Obj ?pre @ map Obj ?post @ Obj ?z # ?R"
  have c1: "(m_size v < pos + 1) = False" and c2: "(m_size v = 0) = False"
    using pos by (auto simp: sz)
  have "move_n T (m_buffer (m_data v)) (pos + 1) (m_size v - (pos + 1)) pos w
      = move_n T (map Obj ?pre @ Obj (xs ! pos) # map Obj ?post @ ?R)
          (Suc (length (map Obj ?pre))) (length ?post) (length (map Obj ?pre)) w"
    unfolding buf blk sz using lpre lpost by simp
  also note move_n_quiet [OF q]
  finally have s1: "move_n T (m_buffer (m_data v)) (pos + 1) (m_size v - (pos + 1)) pos w
      = Ok () (?b1, ?w1)" .
  have "length ?P = ?n - 1"
    using pos by simp
  then have "destroy_n ?b1 (m_size v - 1) 1 ?w1
      = destroy_n (?P @ map Obj [?z] @ ?R) (length ?P) (length [?z]) ?w1"
    by (simp add: sz)
  also note destroy_n_logged
  finally have s2: "destroy_n ?b1 (m_size v - 1) 1 ?w1
      = Ok () (?P @ replicate (length [?z]) Raw @ ?R, logged (map Dtor [?z]) ?w1)" .
  show ?thesis
    by (simp only: Erase_def std_move_def c1 c2 if_False s1 outcome.case prod.case s2)
      (simp add: q)
qed

lemma Resize_quiet:
  assumes h: "holds v xs" and q: "schedule w = []"
    and al: "n \<le> Capacity v \<or> allocatable T n"
  shows "\<exists>v' w'. Resize T n v w = Ok () (v', w') \<and> schedule w' = []"
proof -
  let ?k = "length xs"
  from holdsD [OF h] have sz: "m_size v = ?k" and le: "?k \<le> Capacity v"
    and buf: "m_buffer (m_data v) = map Obj xs @ replicate (Capacity v - ?k) Raw"
    by simp_all
  consider (same) "n = ?k" | (grow) "?k < n" | (shrink) "n < ?k" by linarith
  then show ?thesis
  proof cases
    case same
    with q show ?thesis by (simp add: Resize_def sz)
  next
    case grow
    from Reserve_quiet [OF h q al] obtain v1 w1 where
      rs: "Reserve T n v w = Ok () (v1, w1)" and q1: "schedule w1 = []"
      by auto
    have h1: "holds v1 xs \<and> n \<le> Capacity v1"
    proof (cases "n \<le> Capacity v")
      case True
      with rs h show ?thesis by (simp add: Reserve_def)
    next
      case False
      then have lt: "Capacity v < n" by simp
      with al have "fits T n" by (simp add: allocatable_fits)
      from Reserve_Ok [OF h lt this rs] show ?thesis by simp
    qed
    let ?c = "Capacity v1"
    from holdsD [of v1 xs] h1 have sz1: "m_size v1 = ?k"
      and buf1: "m_buffer (m_data v1) = map Obj xs @ replicate (?c - ?k) Raw"
      by simp_all
    have rp: "replicate (?c - ?k) Raw = replicate (n - ?k) Raw @ replicate (?c - n) Raw"
      using grow h1 by (simp flip: replicate_add)
    have "uninitialized_value_construct_n T (m_buffer (m_data v1)) (m_size v1) (n - m_size v1) w1
        = uninitialized_value_construct_n T
            (map Obj xs @ replicate (n - ?k) Raw @ replicate (?c - n) Raw)
            (length (map Obj xs)) (length (replicate (n - ?k) (Raw :: 'a slot))) w1"
      unfolding sz1 buf1 rp by simp
    also note uninitialized_value_construct_n_quiet [OF q1]
    finally show ?thesis
      using grow by (simp add: Resize_def sz rs q1)
  next
    case shrink
    have blk: "map Obj xs = map Obj (take n xs) @ map Obj (drop n xs)"
      by (simp flip: map_append)
    have "destroy_n (m_buffer (m_data v)) n (?k - n) w
        = destroy_n (map Obj (take n xs) @ map Obj (drop n xs) @ replicate (Capacity v - ?k) Raw)
            (length (map Obj (take n xs))) (length (drop n xs)) w"
      unfolding buf blk using shrink by simp
    also note destroy_n_logged
    finally show ?thesis
      using shrink by (simp add: Resize_def sz q)
  qed
qed

lemma Emplace_grow_quiet:
  assumes h: "holds v xs" and pos: "pos < length xs" and full: "length xs = Capacity v"
    and q: "schedule w = []" and al: "allocatable T (max 1 (length xs * 2))"
  shows "\<exists>v' w'. Emplace T pos a v w = Ok pos (v', w') \<and> schedule w' = []"
proof -
  let ?n = "length xs"
  let ?c = "max 1 (?n * 2)"
  let ?pre = "take pos xs"
  let ?post = "drop pos xs"
  let ?lb = "left_behind T"
  let ?x = "arg_value a"
  from holdsD [OF h] full have sz: "m_size v = ?n"
    and buf: "m_buffer (m_data v) = map Obj xs"
    by simp_all
  from pos have lt: "pos < ?c" and lpre: "length ?pre = pos" and lpost: "length ?post = ?n - pos"
    by simp_all
  let ?nd = "\<lparr>m_buffer = replicate ?c Raw, m_capacity = ?c\<rparr> :: 'a RawMemory"
  let ?w1 = "logged (if ?c = 0 then [] else [Alloc ?c]) w"
  let ?w2 = "logged [ctor_event a] ?w1"
  let ?w3 = "logged (map (relocation_event T) ?pre) ?w2"
  let ?w4 = "logged (map (relocation_event T) ?post) ?w3"
  let ?w5 = "logged (map Dtor (map ?lb xs)) ?w4"
  let ?b = "replicate pos Raw @ Obj ?x # replicate (?c - Suc pos) Raw"
  let ?src = "map Obj (map ?lb ?pre) @ map Obj ?post"
  let ?dst = "map Obj ?pre @ Obj ?x # replicate (?c - Suc pos) Raw"
  let ?src' = "map Obj (map ?lb ?pre) @ map Obj (map ?lb ?post)"
  let ?dst' = "(map Obj ?pre @ [Obj ?x]) @ map Obj ?post @ replicate (?c - Suc ?n) Raw"
  from q have q1: "schedule ?w1 = []" and q2: "schedule ?w2 = []" and q3: "schedule ?w3 = []"
    and q4: "schedule ?w4 = []"
    by simp_all
  have c1: "(pos = m_size v) = False" and c2: "(m_size v = Capacity v) = True"
    and c3: "(pos < 0) = False" and c4: "(m_size v < pos) = False"
    using pos full by (auto simp: sz)
  from al have "allocatable T (max 1 (m_size v * 2))" by (simp add: sz)
  from NewExpendedMem_quiet [OF q this] have s1: "NewExpendedMem T v w = Ok ?nd ?w1"
    unfolding sz .
  have "construct_at T a (m_buffer ?nd) pos ?w1
      = construct_at T a (replicate pos Raw @ Raw # replicate (?c - Suc pos) Raw)
          (length (replicate pos (Raw :: 'a slot))) ?w1"
    by (subst replicate_split [OF lt]) simp
  also note construct_at_quiet [OF q1]
  finally have s2: "construct_at T a (m_buffer ?nd) pos ?w1 = Ok () (?b, ?w2)" .
  have xs: "map Obj xs = map Obj ?pre @ map Obj ?post"
    by (simp flip: map_append)
  have "relocate_n T (m_buffer (m_data v)) 0 (pos - 0) ?b 0 ?w2
      = relocate_n T ([] @ map Obj ?pre @ map Obj ?post) (length ([] :: 'a slot list))
          (length ?pre) ([] @ replicate pos Raw @ (Obj ?x # replicate (?c - Suc pos) Raw))
          (length ([] :: 'a slot list)) ?w2"
    unfolding buf xs using lpre by simp
  also have "\<dots> = Ok () ([] @ map Obj (map ?lb ?pre) @ map Obj ?post,
      [] @ map Obj ?pre @ (Obj ?x # replicate (?c - Suc pos) Raw), ?w3)"
    by (rule relocate_n_quiet [OF q2]) (use pos in simp)
  finally have s3: "relocate_n T (m_buffer (m_data v)) 0 (pos - 0) ?b 0 ?w2
      = Ok () (?src, ?dst, ?w3)"
    by simp
  have tail: "replicate (?c - Suc pos) Raw
      = replicate (?n - pos) Raw @ replicate (?c - Suc ?n) (Raw :: 'a slot)"
    using pos by (simp flip: replicate_add)
  have "relocate_n T ?src pos (m_size v - pos) ?dst (pos + 1) ?w3
      = relocate_n T (map Obj (map ?lb ?pre) @ map Obj ?post @ [])
          (length (map Obj (map ?lb ?pre))) (length ?post)
          ((map Obj ?pre @ [Obj ?x]) @ replicate (?n - pos) Raw @ replicate (?c - Suc ?n) Raw)
          (length (map Obj ?pre @ [Obj ?x])) ?w3"
    unfolding tail sz using pos by simp
  also have "\<dots> = Ok () (map Obj (map ?lb ?pre) @ map Obj (map ?lb ?post) @ [], ?dst', ?w4)"
    by (rule relocate_n_quiet [OF q3]) (simp add: lpost)
  finally have s4: "relocate_n T ?src pos (m_size v - pos) ?dst (pos + 1) ?w3
      = Ok () (?src', ?dst', ?w4)"
    by simp
  have "?src' = [] @ map Obj (map ?lb xs) @ []"
    by (simp flip: map_append)
  then have "destroy_n ?src' 0 (m_size v) ?w4
      = destroy_n ([] @ map Obj (map ?lb xs) @ []) (length ([] :: 'a slot list))
          (length (map ?lb xs)) ?w4"
    by (simp add: sz)
  also note destroy_n_logged
  finally have s5: "destroy_n ?src' 0 (m_size v) ?w4
      = Ok () ([] @ replicate (length (map ?lb xs)) Raw @ [], ?w5)" .
  show ?thesis
    by (simp only: Emplace_def relocate_def relocate_n_def [symmetric]
          uninitialized_move_def uninitialized_copy_def c1 c2 c3 c4 if_True if_False
          s1 outcome.case s2 prod.case s3 s4 s5)
      (simp add: RawMemory_Swap_def q)
qed

lemma Emplace_inplace_quiet:
  assumes h: "holds v xs" and pos: "pos < length xs" and room: "length xs \<noteq> Capacity v"
    and q: "schedule w = []"
  shows "\<exists>v' w'. Emplace T pos a v w = Ok pos (v', w') \<and> schedule w' = []"
proof -
  let ?n = "length xs"
  let ?x = "arg_value a"
  let ?R = "replicate (Capacity v - Suc ?n) Raw"
  from holdsD [OF h] room have sz: "m_size v = ?n" and lt: "?n < Capacity v"
    and buf: "m_buffer (m_data v) = map Obj xs @ replicate (Capacity v - ?n) Raw"
    by simp_all
  from pos obtain ini l where xs: "xs = ini @ [l]"
    by (cases xs rule: rev_cases) auto
  define pre where "pre = take pos ini"
  define mid where "mid = drop pos ini"
  have ini: "ini = pre @ mid"
    by (simp add: pre_def mid_def)
  from pos have pl: "pos \<le> length ini" by (simp add: xs)
  then have lpre: "length pre = pos" and lmid: "length mid = length ini - pos"
    by (simp_all add: pre_def mid_def)
  have nn: "?n = Suc (length ini)" by (simp add: xs)
  have rs: "replicate (Capacity v - ?n) Raw = Raw # ?R"
    using lt by (cases "Capacity v - ?n") auto
  have blk: "map Obj xs @ replicate (Capacity v - ?n) Raw = map Obj ini @ Obj l # Raw # ?R"
    unfolding rs by (simp add: xs)
  let ?w1 = "logged [ctor_event a] w"
  let ?w2 = "logged [MoveCtor l] ?w1"
  let ?w3 = "logged (map MoveAssign (rev mid)) ?w2"
  let ?w4 = "logged [MoveAssign ?x] ?w3"
  let ?z = "hd (map (moved_from T) mid @ [moved_from T l])"
  let ?b = "map Obj ini @ Obj (moved_from T l) # Obj l # ?R"
  let ?b' = "map Obj pre @ Obj ?z # map Obj mid @ Obj l # ?R"
  let ?b'' = "map Obj pre @ Obj ?x # map Obj mid @ Obj l # ?R"
  from q have q1: "schedule ?w1 = []" and q2: "schedule ?w2 = []" and q3: "schedule ?w3 = []"
    by simp_all
  have c1: "(pos = m_size v) = False" and c2: "(m_size v = Capacity v) = False"
    and c3: "(m_size v = 0) = False" and c4: "(m_size v - 1 < pos) = False"
    using pos room pl by (auto simp: sz nn)
  have s1: "construct T a w = Ok ?x ?w1"
    by (rule construct_quiet [OF q])
  have "move_construct_at T (m_buffer (m_data v)) (m_size v - 1) (m_size v) ?w1
      = move_construct_at T (map Obj ini @ Obj l # Raw # ?R)
          (length (map Obj ini)) (Suc (length (map Obj ini))) ?w1"
    unfolding buf blk sz by (simp add: nn)
  also note move_construct_at_quiet [OF q1]
  finally have s2: "move_construct_at T (m_buffer (m_data v)) (m_size v - 1) (m_size v) ?w1
      = Ok () (?b, ?w2)" .
  have bform: "?b = map Obj pre @ map Obj mid @ Obj (moved_from T l) # (Obj l # ?R)"
    by (simp add: ini)
  have "move_backward_n T ?b (m_size v - 1) (m_size v - 1 - pos) (m_size v) ?w2
      = move_backward_n T (map Obj pre @ map Obj mid @ Obj (moved_from T l) # (Obj l # ?R))
          (length (map Obj pre) + length mid) (length mid)
          (Suc (length (map Obj pre) + length mid)) ?w2"
    unfolding bform using pl by (simp add: sz nn lpre lmid)
  also note move_backward_n_quiet [OF q2]
  finally have s3: "move_backward_n T ?b (m_size v - 1) (m_size v - 1 - pos) (m_size v) ?w2
      = Ok () (?b', ?w3)"
    by simp
  have "move_assign_from ?x ?b' pos ?w3
      = move_assign_from ?x (map Obj pre @ Obj ?z # (map Obj mid @ Obj l # ?R))
          (length (map Obj pre)) ?w3"
    by (simp add: lpre)
  also note move_assign_from_quiet [OF q3]
  finally have s4: "move_assign_from ?x ?b' pos ?w3 = Ok () (?b'', ?w4)" .
  show ?thesis
    by (simp only: Emplace_def move_backward_def c1 c2 c3 c4 if_False
          s1 outcome.case s2 prod.case s3 s4)
      (simp add: q)
qed

lemma Emplace_quiet:
  assumes h: "holds v xs" and pos: "pos \<le> length xs" and q: "schedule w = []"
    and al: "length xs < Capacity v \<or> allocatable T (max 1 (length xs * 2))"
  shows "\<exists>v' w'. Emplace T pos a v w = Ok pos (v', w') \<and> schedule w' = []"
proof (cases "pos = length xs")
  case True
  from holdsD [OF h] have "m_size v = length xs" by simp
  with True EmplaceBack_quiet [OF h q al, of a] show ?thesis
    by (simp add: Emplace_def)
next
  case False
  with pos have lt: "pos < length xs" by simp
  show ?thesis
  proof (cases "length xs = Capacity v")
    case True
    from al True have "allocatable T (max 1 (length xs * 2))" by simp
    from Emplace_grow_quiet [OF h lt True q this] show ?thesis .
  next
    case False
    from Emplace_inplace_quiet [OF h lt False q] show ?thesis .
  qed
qed

subsection \<open>Relocations that throw\<close>

lemma move_loop_Throw:
  "move_loop T (S1 @ map Obj xs @ S2) (length S1) (length xs) (D1 @ ys @ D2) (length D1) w
      = Throw e (src', dst', cur, w') \<Longrightarrow> length ys = length xs \<Longrightarrow>
   \<exists>k<length xs. src' = S1 @ map Obj (map (moved_from T) (take k xs) @ drop k xs) @ S2
     \<and> dst' = D1 @ map Obj (take k xs) @ drop k ys @ D2 \<and> cur = length D1 + k
     \<and> e = element_failure \<and> \<not> nothrow_move_constructible T
     \<and> log w' = log w @ map MoveCtor (take k xs)"
proof (induction xs arbitrary: S1 D1 ys w)
  case Nil
  then show ?case by simp
next
  case (Cons x xs)
  then obtain y ys' where ys: "ys = y # ys'" and len: "length ys' = length xs"
    by (cases ys) auto
  show ?case
  proof (cases "construct T (ByMove x) w")
    case (Throw e1 w1)
    with Cons.prems(1)
    have "src' = S1 @ map Obj (x # xs) @ S2 \<and> dst' = D1 @ ys @ D2 \<and> cur = length D1
        \<and> e = e1 \<and> w' = w1"
      by (simp add: ys)
    with construct_Throw [OF Throw] show ?thesis by (intro exI [of _ 0]) simp
  next
    case (Ok z w1)
    from construct_Ok [OF Ok] have z: "z = x" and l1: "log w1 = log w @ [MoveCtor x]"
      by simp_all
    from Ok Cons.prems(1)
    have rest: "move_loop T ((S1 @ [Obj (moved_from T x)]) @ map Obj xs @ S2)
         (length (S1 @ [Obj (moved_from T x)])) (length xs) ((D1 @ [Obj x]) @ ys' @ D2)
         (length (D1 @ [Obj x])) w1 = Throw e (src', dst', cur, w')"
      by (simp add: ys z)
    from Cons.IH [OF rest len] obtain k where "k < length xs"
      "src' = (S1 @ [Obj (moved_from T x)]) @ map Obj (map (moved_from T) (take k xs) @ drop k xs) @ S2"
      "dst' = (D1 @ [Obj x]) @ map Obj (take k xs) @ drop k ys' @ D2"
      "cur = length (D1 @ [Obj x]) + k" "e = element_failure" "\<not> nothrow_move_constructible T"
      "log w' = log w1 @ map MoveCtor (take k xs)"
      by blast
    with l1 show ?thesis by (intro exI [of _ "Suc k"]) (simp add: ys)
  next
    case UB
    then show ?thesis by simp
  qed
qed

lemma move_loop_not_UB:
  "length ys = length xs \<Longrightarrow>
   move_loop T (S1 @ map Obj xs @ S2) (length S1) (length xs) (D1 @ ys @ D2) (length D1) w \<noteq> UB"
proof (induction xs arbitrary: S1 D1 ys w)
  case Nil
  then show ?case by simp
next
  case (Cons x xs)
  then obtain y ys' where ys: "ys = y # ys'" and len: "length ys' = length xs"
    by (cases ys) auto
  show ?case
  proof (cases "construct T (ByMove x) w")
    case (Ok z w1)
    from construct_Ok [OF Ok] have z: "z = x" by simp
    from Cons.IH [OF len, of "S1 @ [Obj (moved_from T x)]" "D1 @ [Obj x]" w1] Ok
    show ?thesis by (simp add: ys z)
  qed (simp_all add: ys)
qed

lemma uninitialized_move_n_Throw:
  assumes "uninitialized_move_n T (S1 @ map Obj xs @ S2) (length S1) (length xs) (D1 @ ys @ D2)
      (length D1) w = Throw e (src', dst', w')" and len: "length ys = length xs"
  shows "\<exists>k<length xs. src' = S1 @ map Obj (map (moved_from T) (take k xs) @ drop k xs) @ S2
     \<and> dst' = D1 @ replicate k Raw @ drop k ys @ D2 \<and> e = element_failure
     \<and> \<not> nothrow_move_constructible T
     \<and> log w' = log w @ map MoveCtor (take k xs) @ map Dtor (take k xs)"
proof -
  from assms(1) obtain d1 cur w1 where
    loop: "move_loop T (S1 @ map Obj xs @ S2) (length S1) (length xs) (D1 @ ys @ D2) (length D1) w
      = Throw e (src', d1, cur, w1)"
    and d: "destroy_n d1 (length D1) (cur - length D1) w1 = Ok () (dst', w')"
    by (auto simp: uninitialized_move_n_def split: outcome.splits)
  from move_loop_Throw [OF loop len] obtain k where k: "k < length xs"
    "src' = S1 @ map Obj (map (moved_from T) (take k xs) @ drop k xs) @ S2"
    "d1 = D1 @ map Obj (take k xs) @ drop k ys @ D2" "cur = length D1 + k" "e = element_failure"
    "\<not> nothrow_move_constructible T" "log w1 = log w @ map MoveCtor (take k xs)"
    by blast
  from k(1) have lk: "length (take k xs) = k" by simp
  have "destroy_n d1 (length D1) (cur - length D1) w1
       = destroy_n (D1 @ map Obj (take k xs) @ (drop k ys @ D2)) (length D1) (length (take k xs)) w1"
    using k lk by simp
  also have "\<dots> = Ok () (D1 @ replicate (length (take k xs)) Raw @ (drop k ys @ D2),
       w1\<lparr>log := log w1 @ map Dtor (take k xs)\<rparr>)"
    by (rule destroy_n_objs)
  finally show ?thesis using d k lk by (intro exI [of _ k]) auto
qed

lemma uninitialized_move_n_not_UB:
  assumes "length ys = length xs"
  shows "uninitialized_move_n T (S1 @ map Obj xs @ S2) (length S1) (length xs) (D1 @ ys @ D2)
      (length D1) w \<noteq> UB"
proof
  assume u: "uninitialized_move_n T (S1 @ map Obj xs @ S2) (length S1) (length xs) (D1 @ ys @ D2)
      (length D1) w = UB"
  show False
  proof (cases "move_loop T (S1 @ map Obj xs @ S2) (length S1) (length xs) (D1 @ ys @ D2) (length D1) w")
    case (Ok r s)
    with u show False by (auto simp: uninitialized_move_n_def split: prod.splits)
  next
    case (Throw e s)
    obtain s1 d1 cur w1 where s: "s = (s1, d1, cur, w1)" by (cases s) auto
    from move_loop_Throw [OF Throw [unfolded s] assms] obtain k where k: "k < length xs"
      "d1 = D1 @ map Obj (take k xs) @ drop k ys @ D2" "cur = length D1 + k"
      by blast
    from k(1) have lk: "length (take k xs) = k" by simp
    have "destroy_n d1 (length D1) (cur - length D1) w1
       = destroy_n (D1 @ map Obj (take k xs) @ (drop k ys @ D2)) (length D1) (length (take k xs)) w1"
      using k lk by simp
    also have "\<dots> = Ok () (D1 @ replicate (length (take k xs)) Raw @ (drop k ys @ D2),
       w1\<lparr>log := log w1 @ map Dtor (take k xs)\<rparr>)"
      by (rule destroy_n_objs)
    finally show False using u Throw s by (simp add: uninitialized_move_n_def)
  next
    case UB
    with move_loop_not_UB [OF assms] show False by blast
  qed
qed

lemma relocate_n_Throw:
  assumes thr: "relocate_n T (S1 @ map Obj xs @ S2) (length S1) (length xs) (D1 @ ys @ D2)
      (length D1) w = Throw e (src', dst', w')" and len: "length ys = length xs"
  shows "\<exists>k<length xs. src' = S1 @ map Obj (map (left_behind T) (take k xs) @ drop k xs) @ S2
     \<and> dst' = D1 @ replicate k Raw @ drop k ys @ D2 \<and> e = element_failure
     \<and> \<not> nothrow_move_constructible T
     \<and> log w' = log w @ map (relocation_event T) (take k xs) @ map Dtor (take k xs)"
proof (cases "nothrow_move_constructible T \<or> \<not> copy_constructible T")
  case True
  then have lb: "left_behind T = moved_from T" and ev: "relocation_event T = MoveCtor"
    by (auto simp: left_behind_def relocation_event_def)
  from thr True have "uninitialized_move_n T (S1 @ map Obj xs @ S2) (length S1) (length xs)
      (D1 @ ys @ D2) (length D1) w = Throw e (src', dst', w')"
    by (simp add: relocate_n_def)
  from uninitialized_move_n_Throw [OF this len] show ?thesis
    unfolding lb ev .
next
  case False
  then have lb: "left_behind T = (\<lambda>x. x)" and ev: "relocation_event T = CopyCtor"
    and nt: "\<not> nothrow_move_constructible T"
    by (auto simp: left_behind_def relocation_event_def)
  from thr False have u: "uninitialized_copy_n (S1 @ map Obj xs @ S2) (length S1) (length xs)
      (D1 @ ys @ D2) (length D1) w = Throw e (dst', w')"
    and src: "src' = S1 @ map Obj xs @ S2"
    by (auto simp: relocate_n_def split: outcome.splits)
  from uninitialized_copy_n_Throw [OF u len] obtain k where k: "k < length xs"
    "dst' = D1 @ replicate k Raw @ drop k ys @ D2" "e = element_failure"
    "log w' = log w @ map CopyCtor (take k xs) @ map Dtor (take k xs)"
    by blast
  with src nt show ?thesis
    unfolding lb ev by (intro exI [of _ k]) simp
qed

lemma relocate_n_not_UB:
  assumes len: "length ys = length xs"
  shows "relocate_n T (S1 @ map Obj xs @ S2) (length S1) (length xs) (D1 @ ys @ D2) (length D1) w
      \<noteq> UB"
  using uninitialized_move_n_not_UB [OF len, of T S1 S2 D1 D2 w]
    uninitialized_copy_n_not_UB [OF len, of S1 S2 D1 D2 w]
  by (auto simp: relocate_n_def split: outcome.splits)

lemma abandoned_relocations_iff:
  "p \<in> set (abandoned_relocations T xs) \<longleftrightarrow>
     (\<exists>k<length xs. p = (map (left_behind T) (take k xs) @ drop k xs,
         map (relocation_event T) (take k xs) @ map Dtor (take k xs)))"
  by (auto simp: abandoned_relocations_def)

lemma Realloc_Throw:
  assumes h: "holds v xs" and nb: "m_buffer nd = ys @ D2" and len: "length ys = length xs"
    and thr: "Realloc T nd v w = Throw e (v', nd', w')"
  shows "e = element_failure \<and> \<not> nothrow_move_constructible T
     \<and> length (m_buffer nd') = length (m_buffer nd) \<and> Capacity v' = Capacity v
     \<and> (\<exists>k<length xs. holds v' (map (left_behind T) (take k xs) @ drop k xs)
           \<and> log w' = log w @ map (relocation_event T) (take k xs) @ map Dtor (take k xs))"
proof -
  let ?R = "replicate (Capacity v - length xs) Raw"
  from holdsD [OF h] have sz: "m_size v = length xs" and le: "length xs \<le> Capacity v"
    and buf: "m_buffer (m_data v) = map Obj xs @ ?R"
    by simp_all
  from thr obtain src dst where
    u: "relocate_n T (m_buffer (m_data v)) 0 (m_size v) (m_buffer nd) 0 w = Throw e (src, dst, w')"
    and v': "v' = set_buffer v src" and nd': "nd' = nd\<lparr>m_buffer := dst\<rparr>"
    by (auto simp: Realloc_def RawMemory_Swap_def split: outcome.splits)
  from u have "relocate_n T ([] @ map Obj xs @ ?R) (length ([] :: 'a slot list)) (length xs)
      ([] @ ys @ D2) (length ([] :: 'a slot list)) w = Throw e (src, dst, w')"
    by (simp add: sz buf nb)
  from relocate_n_Throw [OF this len] obtain k where k: "k < length xs"
    "src = [] @ map Obj (map (left_behind T) (take k xs) @ drop k xs) @ ?R"
    "dst = [] @ replicate k Raw @ drop k ys @ D2" "e = element_failure"
    "\<not> nothrow_move_constructible T"
    "log w' = log w @ map (relocation_event T) (take k xs) @ map Dtor (take k xs)"
    by blast
  from k(1) len have ld: "length dst = length (ys @ D2)" by (simp add: k(3))
  have "holds v' (map (left_behind T) (take k xs) @ drop k xs)"
    using k(1) le
    by (intro holdsI [where c = "Capacity v"]) (simp_all add: v' set_buffer_def sz k(2) Capacity_def)
  with k ld show ?thesis by (auto simp: v' nd' nb set_buffer_def Capacity_def)
qed

lemma Realloc_not_UB:
  assumes h: "holds v xs" and nb: "m_buffer nd = ys @ D2" and len: "length ys = length xs"
  shows "Realloc T nd v w \<noteq> UB"
proof
  assume ub: "Realloc T nd v w = UB"
  let ?R = "replicate (Capacity v - length xs) Raw"
  from holdsD [OF h] have sz: "m_size v = length xs"
    and buf: "m_buffer (m_data v) = map Obj xs @ ?R"
    by simp_all
  have blk: "relocate_n T (m_buffer (m_data v)) 0 (m_size v) (m_buffer nd) 0 w
      = relocate_n T ([] @ map Obj xs @ ?R) (length ([] :: 'a slot list)) (length xs)
      ([] @ ys @ D2) (length ([] :: 'a slot list)) w"
    by (simp add: sz buf nb)
  show False
  proof (cases "relocate_n T (m_buffer (m_data v)) 0 (m_size v) (m_buffer nd) 0 w")
    case (Ok r s)
    obtain src dst w1 where s: "s = (src, dst, w1)" by (cases s) auto
    from Ok have "relocate_n T ([] @ map Obj xs @ ?R) (length ([] :: 'a slot list)) (length xs)
      ([] @ ys @ D2) (length ([] :: 'a slot list)) w = Ok r (src, dst, w1)"
      by (simp add: blk s)
    from relocate_n_Ok [OF this len]
    have src: "src = [] @ map Obj (map (left_behind T) xs) @ ?R" by simp
    have "destroy_n src 0 (m_size v) w1
        = destroy_n ([] @ map Obj (map (left_behind T) xs) @ ?R) (length ([] :: 'a slot list))
            (length (map (left_behind T) xs)) w1"
      by (simp add: sz src)
    also note destroy_n_objs
    finally show False
      using ub Ok s by (simp add: Realloc_def RawMemory_Swap_def)
  next
    case (Throw e s)
    with ub show False by (simp add: Realloc_def split: prod.splits)
  next
    case UB
    with relocate_n_not_UB [OF len, of T "[]" "?R" "[]" D2 w] blk show False by simp
  qed
qed

lemma Reserve_Throw:
  assumes h: "holds v xs" and gt: "Capacity v < n" and ft: "fits T n"
    and thr: "Reserve T n v w = Throw e (v', w')"
  shows "e = bad_alloc \<and> v' = v \<and> log w' = log w
     \<or> e = element_failure \<and> \<not> nothrow_move_constructible T \<and> Capacity v' = Capacity v
         \<and> (\<exists>k<length xs. holds v' (map (left_behind T) (take k xs) @ drop k xs)
               \<and> log w' = log w @ [Alloc n] @ map (relocation_event T) (take k xs)
                    @ map Dtor (take k xs) @ [Free n])"
proof -
  let ?R = "replicate (Capacity v - length xs) Raw"
  from holdsD [OF h] have sz: "m_size v = length xs" and le: "length xs \<le> Capacity v"
    and buf: "m_buffer (m_data v) = map Obj xs @ ?R"
    by simp_all
  from gt le have n: "length xs \<le> n" "n \<noteq> 0" by simp_all
  from thr gt consider
    (alloc) "RawMemory_new T n w = Throw e w'" "v' = v"
    | (reloc) nd w1 src dst w2 where "RawMemory_new T n w = Ok nd w1"
        "relocate_n T (m_buffer (m_data v)) 0 (m_size v) (m_buffer nd) 0 w1 = Throw e (src, dst, w2)"
        "v' = set_buffer v src" "w' = RawMemory_dtor (nd\<lparr>m_buffer := dst\<rparr>) w2"
    by (auto simp: Reserve_def RawMemory_Swap_def split: outcome.splits)
  then show ?thesis
  proof cases
    case alloc
    with RawMemory_new_Throw [OF alloc(1)] show ?thesis by simp
  next
    case reloc
    from RawMemory_new_Ok [OF reloc(1) ft] n
    have nd: "m_buffer nd = replicate n Raw" and l1: "log w1 = log w @ [Alloc n]"
      by simp_all
    have new: "replicate n Raw = [] @ replicate (length xs) Raw @ replicate (n - length xs) Raw"
      using n by (simp add: replicate_add [symmetric])
    from reloc(2) have "relocate_n T ([] @ map Obj xs @ ?R) (length ([] :: 'a slot list)) (length xs)
        ([] @ replicate (length xs) Raw @ replicate (n - length xs) Raw)
        (length ([] :: 'a slot list)) w1 = Throw e (src, dst, w2)"
      unfolding sz buf nd by (subst (asm) new) simp
    from relocate_n_Throw [OF this] obtain k where k: "k < length xs"
      "src = [] @ map Obj (map (left_behind T) (take k xs) @ drop k xs) @ ?R"
      "dst = [] @ replicate k Raw @ drop k (replicate (length xs) Raw)
          @ replicate (n - length xs) Raw"
      "e = element_failure" "\<not> nothrow_move_constructible T"
      "log w2 = log w1 @ map (relocation_event T) (take k xs) @ map Dtor (take k xs)"
      by auto
    from k(1) n have ld: "length dst = n" by (simp add: k(3))
    have "holds v' (map (left_behind T) (take k xs) @ drop k xs)"
      using k(1) le
      by (intro holdsI [where c = "Capacity v"])
        (simp_all add: reloc(3) set_buffer_def sz k(2) Capacity_def)
    moreover have "Capacity v' = Capacity v" by (simp add: reloc(3) set_buffer_def Capacity_def)
    moreover have "log w' = log w @ [Alloc n] @ map (relocation_event T) (take k xs)
                    @ map Dtor (take k xs) @ [Free n]"
      by (simp add: reloc(4) RawMemory_dtor_def ld l1 k(6))
    ultimately show ?thesis using k by blast
  qed
qed

lemma Reserve_not_UB:
  assumes h: "holds v xs" and ft: "n \<le> Capacity v \<or> fits T n"
  shows "Reserve T n v w \<noteq> UB"
proof (cases "n \<le> Capacity v")
  case True
  then show ?thesis by (simp add: Reserve_def)
next
  case False
  with ft have ft': "fits T n" by simp
  let ?R = "replicate (Capacity v - length xs) Raw"
  from holdsD [OF h] have sz: "m_size v = length xs" and le: "length xs \<le> Capacity v"
    and buf: "m_buffer (m_data v) = map Obj xs @ ?R"
    by simp_all
  from False le have n: "length xs \<le> n" "n \<noteq> 0" by simp_all
  have new: "replicate n Raw = [] @ replicate (length xs) Raw @ replicate (n - length xs) Raw"
    using n by (simp add: replicate_add [symmetric])
  show ?thesis
  proof
    assume ub: "Reserve T n v w = UB"
    with False obtain nd w1 where a: "RawMemory_new T n w = Ok nd w1"
      and rest: "(case relocate_n T (m_buffer (m_data v)) 0 (m_size v) (m_buffer nd) 0 w1 of
            Throw e (src, dst, w2) \<Rightarrow> False
          | UB \<Rightarrow> True
          | Ok _ (src, dst, w2) \<Rightarrow> (case destroy_n src 0 (m_size v) w2 of Ok _ _ \<Rightarrow> False | _ \<Rightarrow> True))"
      by (auto simp: Reserve_def RawMemory_Swap_def split: outcome.splits prod.splits)
    from RawMemory_new_Ok [OF a ft'] have nd: "m_buffer nd = replicate n Raw" by simp
    have blk: "relocate_n T (m_buffer (m_data v)) 0 (m_size v) (m_buffer nd) 0 w1
        = relocate_n T ([] @ map Obj xs @ ?R) (length ([] :: 'a slot list)) (length xs)
            ([] @ replicate (length xs) Raw @ replicate (n - length xs) Raw)
            (length ([] :: 'a slot list)) w1"
      unfolding sz buf nd by (subst new) simp
    show False
    proof (cases "relocate_n T (m_buffer (m_data v)) 0 (m_size v) (m_buffer nd) 0 w1")
      case (Ok r s)
      obtain src dst w2 where s: "s = (src, dst, w2)" by (cases s) auto
      from Ok have "relocate_n T ([] @ map Obj xs @ ?R) (length ([] :: 'a slot list)) (length xs)
            ([] @ replicate (length xs) Raw @ replicate (n - length xs) Raw)
            (length ([] :: 'a slot list)) w1 = Ok r (src, dst, w2)"
        by (simp add: blk s)
      from relocate_n_Ok [OF this]
      have src: "src = [] @ map Obj (map (left_behind T) xs) @ ?R" by simp
      have "destroy_n src 0 (m_size v) w2
          = destroy_n ([] @ map Obj (map (left_behind T) xs) @ ?R) (length ([] :: 'a slot list))
              (length (map (left_behind T) xs)) w2"
        by (simp add: sz src)
      also note destroy_n_objs
      finally show False using rest Ok s by simp
    next
      case (Throw e s)
      with rest show False by (simp split: prod.splits)
    next
      case UB
      with relocate_n_not_UB [of "replicate (length xs) Raw" xs T "[]" "?R" "[]"
          "replicate (n - length xs) Raw" w1] blk
      show False by simp
    qed
  qed
qed

lemma EmplaceBack_grow_Throw:
  assumes h: "holds v xs" and ft: "fits T (max 1 (length xs * 2))"
    and full: "m_size v = Capacity v"
    and thr: "EmplaceBack T a v w = Throw e (v', w')"
  shows "e = bad_alloc \<and> v' = v \<and> log w' = log w
     \<or> e = element_failure \<and> v' = v
         \<and> log w' = log w @ [Alloc (max 1 (length xs * 2)), Free (max 1 (length xs * 2))]
     \<or> e = element_failure \<and> \<not> nothrow_move_constructible T \<and> Capacity v' = Capacity v
         \<and> (\<exists>k<length xs. holds v' (map (left_behind T) (take k xs) @ drop k xs)
               \<and> log w' = log w @ [Alloc (max 1 (length xs * 2)), ctor_event a]
                   @ map (relocation_event T) (take k xs) @ map Dtor (take k xs)
                   @ [Free (max 1 (length xs * 2))])"
proof -
  let ?n = "length xs"
  let ?c = "max 1 (?n * 2)"
  from holdsD [OF h] have sz: "m_size v = ?n" by simp
  from ft have ft': "fits T (max 1 (m_size v * 2))" by (simp add: sz)
  have lt: "?n < ?c" by simp
  from thr full consider
    (alloc) "NewExpendedMem T v w = Throw e w'" "v' = v"
    | (ctor) nm w1 b w2 where "NewExpendedMem T v w = Ok nm w1"
        "construct_at T a (m_buffer nm) (m_size v) w1 = Throw e (b, w2)"
        "v' = v" "w' = RawMemory_dtor (nm\<lparr>m_buffer := b\<rparr>) w2"
    | (reloc) nm w1 b w2 nm' w3 where "NewExpendedMem T v w = Ok nm w1"
        "construct_at T a (m_buffer nm) (m_size v) w1 = Ok () (b, w2)"
        "Realloc T (nm\<lparr>m_buffer := b\<rparr>) v w2 = Throw e (v', nm', w3)"
        "w' = RawMemory_dtor nm' w3"
    by (auto simp: EmplaceBack_def split: outcome.splits)
  then show ?thesis
  proof cases
    case alloc
    with NewExpendedMem_Throw [OF alloc(1)] show ?thesis by simp
  next
    case ctor
    from NewExpendedMem_Ok [OF ctor(1) ft'] have nm: "m_buffer nm = replicate ?c Raw"
      and l1: "log w1 = log w @ [Alloc ?c]"
      by (simp_all add: sz)
    from construct_at_Throw [OF ctor(2)] have "b = replicate ?c Raw" "e = element_failure"
      "log w2 = log w1"
      by (simp_all add: nm)
    with ctor l1 show ?thesis by (simp add: RawMemory_dtor_def)
  next
    case reloc
    from NewExpendedMem_Ok [OF reloc(1) ft'] have nm: "m_buffer nm = replicate ?c Raw"
      and l1: "log w1 = log w @ [Alloc ?c]"
      by (simp_all add: sz)
    from reloc(2) have "construct_at T a (replicate ?n Raw @ Raw # replicate (?c - Suc ?n) Raw)
        (length (replicate ?n (Raw :: 'a slot))) w1 = Ok () (b, w2)"
      unfolding nm sz replicate_split [OF lt] by simp
    from construct_at_Ok [OF this]
    have b: "b = replicate ?n Raw @ Obj (arg_value a) # replicate (?c - Suc ?n) Raw"
      and l2: "log w2 = log w1 @ [ctor_event a]"
      by simp_all
    have nb: "m_buffer (nm\<lparr>m_buffer := b\<rparr>)
        = replicate ?n Raw @ (Obj (arg_value a) # replicate (?c - Suc ?n) Raw)"
      by (simp add: b)
    from Realloc_Throw [OF h nb _ reloc(3)] obtain k where
      e: "e = element_failure" "\<not> nothrow_move_constructible T"
      and ln: "length (m_buffer nm') = length b" and c: "Capacity v' = Capacity v"
      and k: "k < ?n" "holds v' (map (left_behind T) (take k xs) @ drop k xs)"
        "log w3 = log w2 @ map (relocation_event T) (take k xs) @ map Dtor (take k xs)"
      by auto
    from ln have "length (m_buffer nm') = ?c"
      using lt by (auto simp: b)
    with e c k l1 l2 reloc(4) show ?thesis
      by (auto simp: RawMemory_dtor_def)
  qed
qed

lemma EmplaceBack_not_UB:
  assumes h: "holds v xs" and ft: "fits T (max 1 (length xs * 2))"
  shows "EmplaceBack T a v w \<noteq> UB"
proof (cases "m_size v = Capacity v")
  case True
  show ?thesis
  proof
    assume ub: "EmplaceBack T a v w = UB"
    let ?n = "length xs"
    let ?c = "max 1 (?n * 2)"
    from holdsD [OF h] have sz: "m_size v = ?n" by simp
    from ft have ft': "fits T (max 1 (m_size v * 2))" by (simp add: sz)
    have lt: "?n < ?c" by simp
    from ub True consider
      (ctor) nm w1 where "NewExpendedMem T v w = Ok nm w1"
          "construct_at T a (m_buffer nm) (m_size v) w1 = UB"
      | (reloc) nm w1 b w2 where "NewExpendedMem T v w = Ok nm w1"
          "construct_at T a (m_buffer nm) (m_size v) w1 = Ok () (b, w2)"
          "Realloc T (nm\<lparr>m_buffer := b\<rparr>) v w2 = UB"
      by (auto simp: EmplaceBack_def split: outcome.splits)
    then show False
    proof cases
      case ctor
      from NewExpendedMem_Ok [OF ctor(1) ft'] have "m_buffer nm = replicate ?c Raw"
        by (simp add: sz)
      with ctor(2) lt show False
        by (auto simp: construct_at_def sz split: outcome.splits if_splits)
    next
      case reloc
      from NewExpendedMem_Ok [OF reloc(1) ft'] have nm: "m_buffer nm = replicate ?c Raw"
        by (simp add: sz)
      from reloc(2) have "construct_at T a (replicate ?n Raw @ Raw # replicate (?c - Suc ?n) Raw)
          (length (replicate ?n (Raw :: 'a slot))) w1 = Ok () (b, w2)"
        unfolding nm sz replicate_split [OF lt] by simp
      from construct_at_Ok [OF this]
      have b: "b = replicate ?n Raw @ Obj (arg_value a) # replicate (?c - Suc ?n) Raw"
        by simp
      have nb: "m_buffer (nm\<lparr>m_buffer := b\<rparr>)
          = replicate ?n Raw @ (Obj (arg_value a) # replicate (?c - Suc ?n) Raw)"
        by (simp add: b)
      from Realloc_not_UB [OF h nb] reloc(3) show False by simp
    qed
  qed
next
  case False
  from holdsD [OF h] have sz: "m_size v = length xs" and le: "length xs \<le> Capacity v"
    and buf: "m_buffer (m_data v) = map Obj xs @ replicate (Capacity v - length xs) Raw"
    by simp_all
  from False le sz have "m_size v < length (m_buffer (m_data v))" by (simp add: buf)
  with False show ?thesis
    by (auto simp: EmplaceBack_def construct_at_def split: outcome.splits)
qed

lemma abandoned_member:
  assumes c: "holds v' (map (left_behind T) (take k xs) @ drop k xs)" and k: "k < length xs"
    and lg: "log w' = log w @ pre @ map (relocation_event T) (take k xs) @ map Dtor (take k xs) @ post"
  shows "\<exists>p\<in>set (abandoned_relocations T xs). holds v' (fst p) \<and> added w w' = pre @ snd p @ post"
proof -
  let ?p = "(map (left_behind T) (take k xs) @ drop k xs,
         map (relocation_event T) (take k xs) @ map Dtor (take k xs))"
  from k have "?p \<in> set (abandoned_relocations T xs)"
    unfolding abandoned_relocations_iff by blast
  moreover from c have "holds v' (fst ?p)" by simp
  moreover from lg have "added w w' = pre @ snd ?p @ post"
    by (simp add: added_def)
  ultimately show ?thesis by blast
qed

lemma Reserve_Throw_added:
  assumes h: "holds v xs" and gt: "Capacity v < n" and ft: "fits T n"
    and thr: "Reserve T n v w = Throw e (v', w')"
  shows "e = bad_alloc \<and> v' = v \<and> added w w' = []
     \<or> e = element_failure \<and> \<not> nothrow_move_constructible T \<and> Capacity v' = Capacity v
         \<and> (\<exists>p\<in>set (abandoned_relocations T xs).
               holds v' (fst p) \<and> added w w' = [Alloc n] @ snd p @ [Free n])"
proof -
  from Reserve_Throw [OF h gt ft thr] consider
    (alloc) "e = bad_alloc" "v' = v" "log w' = log w"
    | (reloc) k where "e = element_failure" "\<not> nothrow_move_constructible T"
        "Capacity v' = Capacity v" "k < length xs"
        "holds v' (map (left_behind T) (take k xs) @ drop k xs)"
        "log w' = log w @ [Alloc n] @ map (relocation_event T) (take k xs)
            @ map Dtor (take k xs) @ [Free n]"
    by blast
  then show ?thesis
  proof cases
    case alloc
    then show ?thesis by (simp add: added_def)
  next
    case reloc
    from abandoned_member [OF reloc(5,4,6)] reloc(1,2,3) show ?thesis by blast
  qed
qed

lemma EmplaceBack_Throw_added:
  assumes h: "wellformed T v xs" and full: "Size v = Capacity v"
    and thr: "EmplaceBack T a v w = Throw e (v', w')"
  shows "e = bad_alloc \<and> v' = v \<and> added w w' = []
     \<or> e = element_failure \<and> v' = v
         \<and> added w w' = [Alloc (max 1 (Size v * 2)), Free (max 1 (Size v * 2))]
     \<or> e = element_failure \<and> \<not> nothrow_move_constructible T \<and> Capacity v' = Capacity v
         \<and> (\<exists>p\<in>set (abandoned_relocations T xs).
               holds v' (fst p)
             \<and> added w w' = [Alloc (max 1 (Size v * 2)), ctor_event a] @ snd p
                  @ [Free (max 1 (Size v * 2))])"
proof -
  from holdsD [OF wellformed_holds [OF h]] have sz: "Size v = length xs"
    by (simp add: Size_def)
  from full have full': "m_size v = Capacity v" by (simp add: Size_def)
  from EmplaceBack_grow_Throw [OF wellformed_holds [OF h] wellformed_fits_grow [OF h] full' thr]
  consider
    (alloc) "e = bad_alloc" "v' = v" "log w' = log w"
    | (ctor) "e = element_failure" "v' = v"
        "log w' = log w @ [Alloc (max 1 (length xs * 2)), Free (max 1 (length xs * 2))]"
    | (reloc) k where "e = element_failure" "\<not> nothrow_move_constructible T"
        "Capacity v' = Capacity v" "k < length xs"
        "holds v' (map (left_behind T) (take k xs) @ drop k xs)"
        "log w' = log w @ [Alloc (max 1 (length xs * 2)), ctor_event a]
            @ map (relocation_event T) (take k xs) @ map Dtor (take k xs)
            @ [Free (max 1 (length xs * 2))]"
    by blast
  then show ?thesis
  proof cases
    case alloc
    then show ?thesis by (simp add: added_def)
  next
    case ctor
    then show ?thesis by (simp add: added_def sz)
  next
    case reloc
    from abandoned_member [OF reloc(5,4,6)] reloc(1,2,3) show ?thesis
      unfolding sz by blast
  qed
qed

section \<open>The claims of the specification\<close>

subsection \<open>Growing appends\<close>

text \<open>
  Claim C1: take an element type whose relocation copies (the move constructor is not
  \<open>noexcept\<close> and the type is copy constructible) and a container with
  \<open>Size() == Capacity()\<close>, so that an append has to grow; the container is one the
  program can have, so that neither \<open>size_ * 2\<close> nor the byte count of the new block
  wraps. Then \<open>PushBack(const T&)\<close>,
  \<open>PushBack(T&&)\<close> and \<open>EmplaceBack\<close> never run into undefined behaviour, and whenever one
  of them throws, whatever operation failed, the container is exactly what it was before
  the call: the same object state, hence the same size, capacity and elements. The log of
  the failed call is one of three: empty (the allocation threw), the allocation and its
  release (the new element could not be constructed: no relocation ran), or the
  allocation, the construction of the new element, then some copies of old elements, the
  destruction of these copies and the release. When the call returns, the new element is
  at offset \<open>Size()\<close> of the new block and its construction is the first operation on any
  element, right after the allocation.
\<close>

theorem append_strong_guarantee:
  assumes "holds v xs" and "representable T v" and "Size v = Capacity v"
    and "\<not> nothrow_move_constructible T" and "copy_constructible T"
  shows "(PushBack T x v w \<noteq> UB
      \<and> (PushBack T x v w = Throw e (v', w') \<longrightarrow>
            v' = v \<and> Size v' = Size v \<and> Capacity v' = Capacity v \<and> elems v' = elems v
          \<and> added w w' \<in> set (failed_growth_logs (ByCopy x) xs)))
    \<and> (PushBack_rvalue T x v w \<noteq> UB
      \<and> (PushBack_rvalue T x v w = Throw e (v', w') \<longrightarrow>
            v' = v \<and> Size v' = Size v \<and> Capacity v' = Capacity v \<and> elems v' = elems v
          \<and> added w w' \<in> set (failed_growth_logs (ByMove x) xs)))
    \<and> (EmplaceBack T a v w \<noteq> UB
      \<and> (EmplaceBack T a v w = Throw e (v', w') \<longrightarrow>
            v' = v \<and> Size v' = Size v \<and> Capacity v' = Capacity v \<and> elems v' = elems v
          \<and> added w w' \<in> set (failed_growth_logs a xs)))
    \<and> (EmplaceBack T a v w = Ok p (u, w'') \<longrightarrow>
            p = Size v \<and> at u p = Some (arg_value a)
          \<and> take 2 (added w w'') = [Alloc (max 1 (Size v * 2)), ctor_event a])"
proof -
  from assms(1,2) have h: "wellformed T v xs" by (simp add: wellformed_def)
  note c = assms(1) and ft = wellformed_fits_grow [OF h]
  have ok: "p = Size v \<and> at u p = Some (arg_value a)
          \<and> take 2 (added w w'') = [Alloc (max 1 (Size v * 2)), ctor_event a]"
    if run: "EmplaceBack T a v w = Ok p (u, w'')"
  proof -
    from holdsD [OF c] assms(3) have sz: "Size v = length xs" "length xs = Capacity v"
      by (simp_all add: Size_def)
    from EmplaceBack_Ok [OF c ft run] sz
    have hu: "holds u (xs @ [arg_value a])" and p: "p = length xs"
      and lg: "log w'' = log w @ [Alloc (max 1 (length xs * 2)), ctor_event a]
                @ map (relocation_event T) xs @ map Dtor (map (left_behind T) xs)
                @ [Free (Capacity v)]"
      by simp_all
    from holds_at [OF hu, of "length xs"] have "at u (length xs) = Some (arg_value a)"
      by simp
    with p lg sz show ?thesis by (simp add: added_def)
  qed
  from assms(3) have full: "m_size v = Capacity v" by (simp add: Size_def)
  from assms(4,5) have copy: "\<not> (nothrow_move_constructible T \<or> \<not> copy_constructible T)"
    by simp
  have nub: "EmplaceBack T b v w \<noteq> UB" for b
    by (rule EmplaceBack_copy_not_UB [OF c ft full copy])
  have thr: "v' = v \<and> Size v' = Size v \<and> Capacity v' = Capacity v \<and> elems v' = elems v
          \<and> added w w' \<in> set (failed_growth_logs b xs)"
    if "EmplaceBack T b v w = Throw e (v', w')" for b
  proof -
    from EmplaceBack_copy_Throw [OF c ft full copy that]
    have same: "v' = v" and "log w' = log w
        \<or> log w' = log w @ [Alloc (max 1 (length xs * 2)), Free (max 1 (length xs * 2))]
        \<or> (\<exists>k<length xs. log w' = log w @ [Alloc (max 1 (length xs * 2)), ctor_event b]
              @ map CopyCtor (take k xs) @ map Dtor (take k xs)
              @ [Free (max 1 (length xs * 2))])"
      by auto
    then have "added w w' \<in> set (failed_growth_logs b xs)"
      unfolding failed_growth_logs_iff by (auto simp: added_def)
    with same show ?thesis by simp
  qed
  have "PushBack T x v w \<noteq> UB"
    using nub [of "ByCopy x"] by (simp add: PushBack_EmplaceBack split: outcome.splits)
  moreover have "PushBack_rvalue T x v w \<noteq> UB"
    using nub [of "ByMove x"] by (simp add: PushBack_rvalue_EmplaceBack split: outcome.splits)
  moreover have "EmplaceBack T (ByCopy x) v w = Throw e (v', w')"
    if "PushBack T x v w = Throw e (v', w')"
    using that by (auto simp: PushBack_EmplaceBack split: outcome.splits)
  moreover have "EmplaceBack T (ByMove x) v w = Throw e (v', w')"
    if "PushBack_rvalue T x v w = Throw e (v', w')"
    using that by (auto simp: PushBack_rvalue_EmplaceBack split: outcome.splits)
  ultimately show ?thesis using nub [of a] thr ok by blast
qed

theorem append_strong_guarantee_witness:
  "holds (vector_of [1, 2] 2) [1, 2 :: int] \<and> representable throwing_type (vector_of [1, 2] 2)
   \<and> Size (vector_of [1, 2 :: int] 2) = Capacity (vector_of [1, 2 :: int] 2)
   \<and> \<not> nothrow_move_constructible throwing_type \<and> copy_constructible throwing_type
   \<and> PushBack throwing_type 9 (vector_of [1, 2] 2) \<lparr>schedule = [False, False, False, True], log = []\<rparr>
       = Throw element_failure (vector_of [1, 2] 2,
           \<lparr>schedule = [], log = [Alloc 4, CopyCtor 9, CopyCtor 1, Dtor 1, Free 4]\<rparr>)
   \<and> added \<lparr>schedule = [False, False, False, True], log = []\<rparr>
        \<lparr>schedule = [], log = [Alloc 4, CopyCtor 9, CopyCtor 1, Dtor 1, Free 4]\<rparr>
       \<in> set (failed_growth_logs (ByCopy 9) [1, 2 :: int])"
proof -
  let ?w = "\<lparr>schedule = [False, False, False, True], log = []\<rparr> :: int world"
  let ?w' = "\<lparr>schedule = [], log = [Alloc 4, CopyCtor 9, CopyCtor 1, Dtor 1, Free (4 :: nat)]\<rparr>
      :: int world"
  have h: "holds (vector_of [1, 2] 2) [1, 2 :: int]"
    and p: "representable throwing_type (vector_of [1, 2] 2)"
    by code_simp+
  have full: "Size (vector_of [1, 2 :: int] 2) = Capacity (vector_of [1, 2 :: int] 2)"
    by (simp add: Size_def Capacity_def vector_of_def)
  have t1: "\<not> nothrow_move_constructible throwing_type" and t2: "copy_constructible throwing_type"
    by (simp_all add: throwing_type_def)
  have run: "PushBack throwing_type 9 (vector_of [1, 2] 2) ?w
      = Throw element_failure (vector_of [1, 2] 2, ?w')"
    by code_simp
  from append_strong_guarantee [OF h p full t1 t2, where x = 9 and w = ?w and e = element_failure
      and v' = "vector_of [1, 2] 2" and w' = ?w'] run
  have "added ?w ?w' \<in> set (failed_growth_logs (ByCopy 9) [1, 2 :: int])"
    by blast
  with h p full t1 t2 run show ?thesis by blast
qed

text \<open>
  Claim C2: whenever elements are relocated to a new block, by \<open>Reserve(n)\<close> with
  \<open>n > Capacity()\<close> or by a growing \<open>PushBack\<close>, \<open>EmplaceBack\<close> or \<open>Emplace\<close>, the
  constructions in the new block are move constructions when the move constructor is
  \<open>noexcept\<close> or the type is not copy constructible, and copy constructions otherwise;
  which of the two depends on the element type alone. In detail, for a container that
  holds \<open>xs\<close> and is one the program can have (for \<open>Reserve\<close>: and a request whose byte
  count \<open>n * sizeof(T)\<close> does not wrap):

  \<^item> The call that returns has run exactly these operations: the allocation, for an
    append the construction of the new element, one construction per old element in
    order, the destruction of every old object, and the release of the old block.
  \<^item> \<open>Reserve\<close> and a growing \<open>EmplaceBack\<close> have no undefined behaviour. When one of them
    throws, either the allocation failed, or (for the append) the new element could not
    be constructed, or construction \<open>k + 1\<close> of the relocation threw, which only a type
    whose move constructor is not \<open>noexcept\<close> can do: then \<open>k\<close> old elements were
    constructed in the new block by the operation of the type, the same \<open>k\<close> objects
    were destroyed there and the new block was released. The container keeps its block
    and capacity; its first \<open>k\<close> elements are what the relocation left behind (unchanged
    after copies, moved-from after moves).
  \<^item> When no operation throws and the new block can be allocated, each of the calls
    returns.
\<close>

theorem relocation_by_element_type:
  assumes "holds v xs" and "representable T v"
  shows "(Capacity v < n \<longrightarrow> fits T n \<longrightarrow> Reserve T n v w = Ok r (v', w') \<longrightarrow>
            added w w' = [Alloc n] @ map (relocation_event T) xs
              @ map Dtor (map (left_behind T) xs) @ [Free (Capacity v)])
    \<and> (Size v = Capacity v \<longrightarrow> PushBack T x v w = Ok r (v', w') \<longrightarrow>
            added w w' = [Alloc (max 1 (Size v * 2)), CopyCtor x] @ map (relocation_event T) xs
              @ map Dtor (map (left_behind T) xs) @ [Free (Capacity v)])
    \<and> (Size v = Capacity v \<longrightarrow> PushBack_rvalue T x v w = Ok r (v', w') \<longrightarrow>
            added w w' = [Alloc (max 1 (Size v * 2)), MoveCtor x] @ map (relocation_event T) xs
              @ map Dtor (map (left_behind T) xs) @ [Free (Capacity v)])
    \<and> (Size v = Capacity v \<longrightarrow> EmplaceBack T a v w = Ok p (v', w') \<longrightarrow>
            added w w' = [Alloc (max 1 (Size v * 2)), ctor_event a] @ map (relocation_event T) xs
              @ map Dtor (map (left_behind T) xs) @ [Free (Capacity v)])
    \<and> (Size v = Capacity v \<longrightarrow> pos \<le> Size v \<longrightarrow> Emplace T pos a v w = Ok p (v', w') \<longrightarrow>
            added w w' = [Alloc (max 1 (Size v * 2)), ctor_event a] @ map (relocation_event T) xs
              @ map Dtor (map (left_behind T) xs) @ [Free (Capacity v)])
    \<and> relocation_event T
         = (if nothrow_move_constructible T \<or> \<not> copy_constructible T then MoveCtor else CopyCtor)
    \<and> left_behind T
         = (if nothrow_move_constructible T \<or> \<not> copy_constructible T then moved_from T
            else (\<lambda>x. x))
    \<and> (Capacity v < n \<longrightarrow> fits T n \<longrightarrow>
          Reserve T n v w \<noteq> UB
        \<and> (Reserve T n v w = Throw e (v', w') \<longrightarrow>
              e = bad_alloc \<and> v' = v \<and> added w w' = []
            \<or> e = element_failure \<and> \<not> nothrow_move_constructible T \<and> Capacity v' = Capacity v
                \<and> (\<exists>s\<in>set (abandoned_relocations T xs).
                      holds v' (fst s) \<and> added w w' = [Alloc n] @ snd s @ [Free n])))
    \<and> (Size v = Capacity v \<longrightarrow>
          EmplaceBack T a v w \<noteq> UB
        \<and> (EmplaceBack T a v w = Throw e (v', w') \<longrightarrow>
              e = bad_alloc \<and> v' = v \<and> added w w' = []
            \<or> e = element_failure \<and> v' = v
                \<and> added w w' = [Alloc (max 1 (Size v * 2)), Free (max 1 (Size v * 2))]
            \<or> e = element_failure \<and> \<not> nothrow_move_constructible T \<and> Capacity v' = Capacity v
                \<and> (\<exists>s\<in>set (abandoned_relocations T xs).
                      holds v' (fst s)
                    \<and> added w w' = [Alloc (max 1 (Size v * 2)), ctor_event a] @ snd s
                         @ [Free (max 1 (Size v * 2))])))
    \<and> (schedule w = [] \<longrightarrow> Capacity v < n \<longrightarrow> allocatable T n \<longrightarrow>
          (\<exists>u w''. Reserve T n v w = Ok () (u, w'')))
    \<and> (schedule w = [] \<longrightarrow> Size v = Capacity v \<longrightarrow> allocatable T (max 1 (Size v * 2)) \<longrightarrow>
          (\<exists>u w''. PushBack T x v w = Ok () (u, w''))
        \<and> (\<exists>u w''. PushBack_rvalue T x v w = Ok () (u, w''))
        \<and> (\<exists>u w''. EmplaceBack T a v w = Ok (Size v) (u, w''))
        \<and> (pos \<le> Size v \<longrightarrow> (\<exists>u w''. Emplace T pos a v w = Ok pos (u, w''))))"
proof -
  from assms have h: "wellformed T v xs" by (simp add: wellformed_def)
  note c = assms(1) and ft = wellformed_fits_grow [OF h]
  let ?tail = "map (relocation_event T) xs @ map Dtor (map (left_behind T) xs) @ [Free (Capacity v)]"
  from holdsD [OF c] have sz: "Size v = length xs" "m_size v = length xs"
    by (simp_all add: Size_def)
  have rs: "added w w' = [Alloc n] @ ?tail"
    if "Capacity v < n" and "fits T n" and "Reserve T n v w = Ok r (v', w')"
    using Reserve_Ok [OF c that] by (simp add: added_def)
  have eb: "added w w' = [Alloc (max 1 (Size v * 2)), ctor_event b] @ ?tail"
    if "Size v = Capacity v" and "EmplaceBack T b v w = Ok q (v', w')" for b q
    using EmplaceBack_Ok [OF c ft that(2)] that(1) by (simp add: added_def sz)
  have em: "added w w' = [Alloc (max 1 (Size v * 2)), ctor_event a] @ ?tail"
    if full: "Size v = Capacity v" and pos: "pos \<le> Size v"
      and ok: "Emplace T pos a v w = Ok p (v', w')"
  proof (cases "pos = length xs")
    case True
    with ok have "EmplaceBack T a v w = Ok p (v', w')"
      by (simp add: Emplace_def sz)
    from eb [OF full this] show ?thesis .
  next
    case False
    with pos have "pos < length xs" by (simp add: sz)
    from Emplace_grow_Ok [OF c this _ ft ok] full show ?thesis
      by (simp add: added_def sz)
  qed
  have ev: "relocation_event T
         = (if nothrow_move_constructible T \<or> \<not> copy_constructible T then MoveCtor else CopyCtor)"
    by (rule ext) (simp add: relocation_event_def)
  have lb: "left_behind T
         = (if nothrow_move_constructible T \<or> \<not> copy_constructible T then moved_from T
            else (\<lambda>x. x))"
    by (rule ext) (simp add: left_behind_def)
  have pc: "added w w' = [Alloc (max 1 (Size v * 2)), CopyCtor x] @ ?tail"
    if "Size v = Capacity v" and "PushBack T x v w = Ok r (v', w')"
    using eb [of "ByCopy x"] that PushBack_OkD [of T x v w r v' w'] by auto
  have pm: "added w w' = [Alloc (max 1 (Size v * 2)), MoveCtor x] @ ?tail"
    if "Size v = Capacity v" and "PushBack_rvalue T x v w = Ok r (v', w')"
    using eb [of "ByMove x"] that PushBack_rvalue_Ok [OF c, of T x w r v' w'] by auto
  have rn: "Reserve T n v w \<noteq> UB" if "fits T n"
    using Reserve_not_UB [OF c, of n T w] that by simp
  have rt: "e = bad_alloc \<and> v' = v \<and> added w w' = []
      \<or> e = element_failure \<and> \<not> nothrow_move_constructible T \<and> Capacity v' = Capacity v
          \<and> (\<exists>s\<in>set (abandoned_relocations T xs).
                holds v' (fst s) \<and> added w w' = [Alloc n] @ snd s @ [Free n])"
    if "Capacity v < n" and "fits T n" and "Reserve T n v w = Throw e (v', w')"
    by (rule Reserve_Throw_added [OF c that])
  have en: "EmplaceBack T a v w \<noteq> UB"
    by (rule EmplaceBack_not_UB [OF c ft])
  have et: "e = bad_alloc \<and> v' = v \<and> added w w' = []
      \<or> e = element_failure \<and> v' = v
          \<and> added w w' = [Alloc (max 1 (Size v * 2)), Free (max 1 (Size v * 2))]
      \<or> e = element_failure \<and> \<not> nothrow_move_constructible T \<and> Capacity v' = Capacity v
          \<and> (\<exists>s\<in>set (abandoned_relocations T xs).
                holds v' (fst s)
              \<and> added w w' = [Alloc (max 1 (Size v * 2)), ctor_event a] @ snd s
                   @ [Free (max 1 (Size v * 2))])"
    if "Size v = Capacity v" and "EmplaceBack T a v w = Throw e (v', w')"
    by (rule EmplaceBack_Throw_added [OF h that])
  have rq: "\<exists>u w''. Reserve T n v w = Ok () (u, w'')"
    if q: "schedule w = []" and "allocatable T n"
    using Reserve_quiet [OF c q, of n T] that(2) by blast
  have aq: "(\<exists>u w''. PushBack T x v w = Ok () (u, w''))
        \<and> (\<exists>u w''. PushBack_rvalue T x v w = Ok () (u, w''))
        \<and> (\<exists>u w''. EmplaceBack T a v w = Ok (Size v) (u, w''))
        \<and> (pos \<le> Size v \<longrightarrow> (\<exists>u w''. Emplace T pos a v w = Ok pos (u, w'')))"
    if q: "schedule w = []" and al: "allocatable T (max 1 (Size v * 2))"
  proof -
    from al have al': "length xs < Capacity v \<or> allocatable T (max 1 (length xs * 2))"
      by (simp add: sz)
    from PushBack_quiet [OF c q al', of x] have "\<exists>u w''. PushBack T x v w = Ok () (u, w'')"
      by blast
    moreover from PushBack_rvalue_quiet [OF c q al', of x]
    have "\<exists>u w''. PushBack_rvalue T x v w = Ok () (u, w'')"
      by blast
    moreover from EmplaceBack_quiet [OF c q al', of a]
    have "\<exists>u w''. EmplaceBack T a v w = Ok (Size v) (u, w'')"
      by (auto simp: sz)
    moreover have "\<exists>u w''. Emplace T pos a v w = Ok pos (u, w'')" if "pos \<le> Size v"
      using Emplace_quiet [OF c _ q al', of pos a] that by (auto simp: sz)
    ultimately show ?thesis by blast
  qed
  have g1: "Capacity v < n \<longrightarrow> fits T n \<longrightarrow> Reserve T n v w = Ok r (v', w') \<longrightarrow>
      added w w' = [Alloc n] @ ?tail"
    using rs by blast
  have g2: "Size v = Capacity v \<longrightarrow> PushBack T x v w = Ok r (v', w') \<longrightarrow>
      added w w' = [Alloc (max 1 (Size v * 2)), CopyCtor x] @ ?tail"
    using pc by blast
  have g3: "Size v = Capacity v \<longrightarrow> PushBack_rvalue T x v w = Ok r (v', w') \<longrightarrow>
      added w w' = [Alloc (max 1 (Size v * 2)), MoveCtor x] @ ?tail"
    using pm by blast
  have g4: "Size v = Capacity v \<longrightarrow> EmplaceBack T a v w = Ok p (v', w') \<longrightarrow>
      added w w' = [Alloc (max 1 (Size v * 2)), ctor_event a] @ ?tail"
    using eb [of a p] by blast
  have g5: "Size v = Capacity v \<longrightarrow> pos \<le> Size v \<longrightarrow> Emplace T pos a v w = Ok p (v', w') \<longrightarrow>
      added w w' = [Alloc (max 1 (Size v * 2)), ctor_event a] @ ?tail"
    using em by blast
  have g6: "Capacity v < n \<longrightarrow> fits T n \<longrightarrow>
          Reserve T n v w \<noteq> UB
        \<and> (Reserve T n v w = Throw e (v', w') \<longrightarrow>
              e = bad_alloc \<and> v' = v \<and> added w w' = []
            \<or> e = element_failure \<and> \<not> nothrow_move_constructible T \<and> Capacity v' = Capacity v
                \<and> (\<exists>s\<in>set (abandoned_relocations T xs).
                      holds v' (fst s) \<and> added w w' = [Alloc n] @ snd s @ [Free n]))"
    using rn rt by (intro impI conjI)
  have g7: "Size v = Capacity v \<longrightarrow>
          EmplaceBack T a v w \<noteq> UB
        \<and> (EmplaceBack T a v w = Throw e (v', w') \<longrightarrow>
              e = bad_alloc \<and> v' = v \<and> added w w' = []
            \<or> e = element_failure \<and> v' = v
                \<and> added w w' = [Alloc (max 1 (Size v * 2)), Free (max 1 (Size v * 2))]
            \<or> e = element_failure \<and> \<not> nothrow_move_constructible T \<and> Capacity v' = Capacity v
                \<and> (\<exists>s\<in>set (abandoned_relocations T xs).
                      holds v' (fst s)
                    \<and> added w w' = [Alloc (max 1 (Size v * 2)), ctor_event a] @ snd s
                         @ [Free (max 1 (Size v * 2))]))"
    using en et by (intro impI conjI)
  have g8: "schedule w = [] \<longrightarrow> Capacity v < n \<longrightarrow> allocatable T n \<longrightarrow>
          (\<exists>u w''. Reserve T n v w = Ok () (u, w''))"
    using rq by (intro impI)
  have g9: "schedule w = [] \<longrightarrow> Size v = Capacity v \<longrightarrow> allocatable T (max 1 (Size v * 2)) \<longrightarrow>
          (\<exists>u w''. PushBack T x v w = Ok () (u, w''))
        \<and> (\<exists>u w''. PushBack_rvalue T x v w = Ok () (u, w''))
        \<and> (\<exists>u w''. EmplaceBack T a v w = Ok (Size v) (u, w''))
        \<and> (pos \<le> Size v \<longrightarrow> (\<exists>u w''. Emplace T pos a v w = Ok pos (u, w'')))"
    using aq by (intro impI)
  show ?thesis
    by (intro conjI g1 g2 g3 g4 g5 ev lb g6 g7 g8 g9)
qed

theorem relocation_by_element_type_witness:
  "holds (vector_of [1, 2] 2) [1, 2 :: int] \<and> representable int_type (vector_of [1, 2] 2)
   \<and> representable throwing_type (vector_of [1, 2] 2)
   \<and> representable move_only_type (vector_of [1, 2] 2)
   \<and> Capacity (vector_of [1, 2 :: int] 2) < 4 \<and> fits int_type 4 \<and> fits throwing_type 4
   \<and> fits move_only_type 4
   \<and> Reserve int_type 4 (vector_of [1, 2] 2) quiet
       = Ok () (vector_of [1, 2] 4,
           \<lparr>schedule = [], log = [Alloc 4, MoveCtor 1, MoveCtor 2, Dtor 1, Dtor 2, Free 2]\<rparr>)
   \<and> added quiet \<lparr>schedule = [], log = [Alloc 4, MoveCtor 1, MoveCtor 2, Dtor 1, Dtor 2, Free 2]\<rparr>
       = [Alloc 4] @ map (relocation_event int_type) [1, 2]
           @ map Dtor (map (left_behind int_type) [1, 2])
           @ [Free (Capacity (vector_of [1, 2 :: int] 2))]
   \<and> Reserve throwing_type 4 (vector_of [1, 2] 2) quiet
       = Ok () (vector_of [1, 2] 4,
           \<lparr>schedule = [], log = [Alloc 4, CopyCtor 1, CopyCtor 2, Dtor 1, Dtor 2, Free 2]\<rparr>)
   \<and> added quiet \<lparr>schedule = [], log = [Alloc 4, CopyCtor 1, CopyCtor 2, Dtor 1, Dtor 2, Free 2]\<rparr>
       = [Alloc 4] @ map (relocation_event throwing_type) [1, 2]
           @ map Dtor (map (left_behind throwing_type) [1, 2])
           @ [Free (Capacity (vector_of [1, 2 :: int] 2))]
   \<and> Reserve move_only_type 4 (vector_of [1, 2] 2) \<lparr>schedule = [False, False, True], log = []\<rparr>
       = Throw element_failure (vector_of [0, 2] 2,
           \<lparr>schedule = [], log = [Alloc 4, MoveCtor 1, Dtor 1, Free 4]\<rparr>)
   \<and> (\<exists>s\<in>set (abandoned_relocations move_only_type [1, 2]).
         holds (vector_of [0, 2] 2) (fst s)
       \<and> added \<lparr>schedule = [False, False, True], log = []\<rparr>
            \<lparr>schedule = [], log = [Alloc 4, MoveCtor 1, Dtor 1, Free 4]\<rparr>
           = [Alloc 4] @ snd s @ [Free 4])
   \<and> Size (vector_of [1, 2 :: int] 2) = Capacity (vector_of [1, 2 :: int] 2)
   \<and> EmplaceBack throwing_type (Args 7) (vector_of [1, 2] 2) quiet
       = Ok 2 (vector_of [1, 2, 7] 4,
           \<lparr>schedule = [],
              log = [Alloc 4, ArgsCtor 7, CopyCtor 1, CopyCtor 2, Dtor 1, Dtor 2, Free 2]\<rparr>)
   \<and> added quiet
        \<lparr>schedule = [], log = [Alloc 4, ArgsCtor 7, CopyCtor 1, CopyCtor 2, Dtor 1, Dtor 2, Free 2]\<rparr>
       = [Alloc (max 1 (Size (vector_of [1, 2 :: int] 2) * 2)), ctor_event (Args 7)]
           @ map (relocation_event throwing_type) [1, 2]
           @ map Dtor (map (left_behind throwing_type) [1, 2])
           @ [Free (Capacity (vector_of [1, 2 :: int] 2))]
   \<and> EmplaceBack move_only_type (Args 7) (vector_of [1, 2] 2)
        \<lparr>schedule = [False, False, False, True], log = []\<rparr>
       = Throw element_failure (vector_of [0, 2] 2,
           \<lparr>schedule = [], log = [Alloc 4, ArgsCtor 7, MoveCtor 1, Dtor 1, Free 4]\<rparr>)
   \<and> (\<exists>s\<in>set (abandoned_relocations move_only_type [1, 2]).
         holds (vector_of [0, 2] 2) (fst s)
       \<and> added \<lparr>schedule = [False, False, False, True], log = []\<rparr>
            \<lparr>schedule = [], log = [Alloc 4, ArgsCtor 7, MoveCtor 1, Dtor 1, Free 4]\<rparr>
           = [Alloc (max 1 (Size (vector_of [1, 2 :: int] 2) * 2)), ctor_event (Args 7)] @ snd s
               @ [Free (max 1 (Size (vector_of [1, 2 :: int] 2) * 2))])
   \<and> schedule (quiet :: int world) = []
   \<and> allocatable int_type (max 1 (Size (vector_of [1, 2 :: int] 2) * 2))
   \<and> (\<exists>u w''. PushBack int_type 3 (vector_of [1, 2] 2) quiet = Ok () (u, w''))
   \<and> (\<exists>u w''. Emplace int_type 1 (Args 3) (vector_of [1, 2] 2) quiet = Ok 1 (u, w''))
   \<and> relocation_event throwing_type = CopyCtor
   \<and> relocation_event int_type = MoveCtor
   \<and> relocation_event move_only_type = MoveCtor"
proof -
  let ?v = "vector_of [1, 2 :: int] 2"
  let ?wi = "\<lparr>schedule = [], log = [Alloc 4, MoveCtor 1, MoveCtor 2, Dtor 1, Dtor 2, Free (2 :: nat)]\<rparr>
      :: int world"
  let ?wc = "\<lparr>schedule = [], log = [Alloc 4, CopyCtor 1, CopyCtor 2, Dtor 1, Dtor 2, Free (2 :: nat)]\<rparr>
      :: int world"
  let ?s = "\<lparr>schedule = [False, False, True], log = []\<rparr> :: int world"
  let ?wm = "\<lparr>schedule = [], log = [Alloc 4, MoveCtor 1, Dtor 1, Free (4 :: nat)]\<rparr> :: int world"
  let ?we = "\<lparr>schedule = [],
      log = [Alloc 4, ArgsCtor 7, CopyCtor 1, CopyCtor 2, Dtor 1, Dtor 2, Free (2 :: nat)]\<rparr> :: int world"
  let ?s4 = "\<lparr>schedule = [False, False, False, True], log = []\<rparr> :: int world"
  let ?wt = "\<lparr>schedule = [], log = [Alloc 4, ArgsCtor 7, MoveCtor 1, Dtor 1, Free (4 :: nat)]\<rparr>
      :: int world"
  have h: "holds ?v [1, 2]" and pi: "representable int_type ?v"
    and pt: "representable throwing_type ?v" and pm: "representable move_only_type ?v"
    by code_simp+
  have c: "Capacity ?v < 4"
    by (simp add: Capacity_def vector_of_def)
  have fi: "fits int_type 4" and fc: "fits throwing_type 4" and fm: "fits move_only_type 4"
    by code_simp+
  have ri: "Reserve int_type 4 ?v quiet = Ok () (vector_of [1, 2] 4, ?wi)"
    by code_simp
  have rc: "Reserve throwing_type 4 ?v quiet = Ok () (vector_of [1, 2] 4, ?wc)"
    by code_simp
  have rm: "Reserve move_only_type 4 ?v ?s = Throw element_failure (vector_of [0, 2] 2, ?wm)"
    by code_simp
  have full: "Size ?v = Capacity ?v"
    by (simp add: Size_def Capacity_def vector_of_def)
  have eo: "EmplaceBack throwing_type (Args 7) ?v quiet = Ok 2 (vector_of [1, 2, 7] 4, ?we)"
    by code_simp
  have et: "EmplaceBack move_only_type (Args 7) ?v ?s4
      = Throw element_failure (vector_of [0, 2] 2, ?wt)"
    by code_simp
  have ne: "vector_of [0, 2] 2 \<noteq> ?v"
    by code_simp
  have q: "schedule (quiet :: int world) = []"
    by (simp add: quiet_def)
  have al: "allocatable int_type (max 1 (Size ?v * 2))"
    by code_simp
  have pos: "1 \<le> Size ?v"
    by (simp add: Size_def vector_of_def)
  have ti: "nothrow_move_constructible int_type \<or> \<not> copy_constructible int_type"
    and tc: "\<not> (nothrow_move_constructible throwing_type \<or> \<not> copy_constructible throwing_type)"
    and tm: "nothrow_move_constructible move_only_type \<or> \<not> copy_constructible move_only_type"
    by (simp_all add: throwing_type_def int_type_def move_only_type_def)
  note t1 = relocation_by_element_type [OF h pi, where n = 4 and w = quiet
      and r = "()" and v' = "vector_of [1, 2] 4" and w' = ?wi and x = 3 and a = "Args 3" and pos = 1]
  from t1 c fi ri ti
  have ai: "added quiet ?wi = [Alloc 4] @ map (relocation_event int_type) [1, 2]
           @ map Dtor (map (left_behind int_type) [1, 2]) @ [Free (Capacity ?v)]"
    and ei: "relocation_event int_type = MoveCtor"
    by simp_all
  from t1 q full al pos
  have qp: "\<exists>u w''. PushBack int_type 3 ?v quiet = Ok () (u, w'')"
    and qe: "\<exists>u w''. Emplace int_type 1 (Args 3) ?v quiet = Ok 1 (u, w'')"
    by blast+
  note t2 = relocation_by_element_type [OF h pt, where n = 4 and w = quiet
      and r = "()" and v' = "vector_of [1, 2] 4" and w' = ?wc]
  from t2 c fc rc tc
  have ac: "added quiet ?wc = [Alloc 4] @ map (relocation_event throwing_type) [1, 2]
           @ map Dtor (map (left_behind throwing_type) [1, 2]) @ [Free (Capacity ?v)]"
    and ec: "relocation_event throwing_type = CopyCtor"
    by simp_all
  from relocation_by_element_type [OF h pt, where w = quiet and a = "Args 7" and p = 2
      and v' = "vector_of [1, 2, 7] 4" and w' = ?we] full eo
  have ae: "added quiet ?we = [Alloc (max 1 (Size ?v * 2)), ctor_event (Args 7)]
           @ map (relocation_event throwing_type) [1, 2]
           @ map Dtor (map (left_behind throwing_type) [1, 2]) @ [Free (Capacity ?v)]"
    by blast
  from relocation_by_element_type [OF h pm, where n = 4 and w = ?s and e = element_failure
      and v' = "vector_of [0, 2] 2" and w' = ?wm] c fm rm tm
  have am: "\<exists>s\<in>set (abandoned_relocations move_only_type [1, 2]).
         holds (vector_of [0, 2] 2) (fst s)
       \<and> added ?s ?wm = [Alloc 4] @ snd s @ [Free 4]"
    and em: "relocation_event move_only_type = MoveCtor"
    by simp_all
  from relocation_by_element_type [OF h pm, where w = ?s4 and e = element_failure
      and a = "Args 7" and v' = "vector_of [0, 2] 2" and w' = ?wt] full et ne
  have at: "\<exists>s\<in>set (abandoned_relocations move_only_type [1, 2]).
         holds (vector_of [0, 2] 2) (fst s)
       \<and> added ?s4 ?wt = [Alloc (max 1 (Size ?v * 2)), ctor_event (Args 7)] @ snd s
               @ [Free (max 1 (Size ?v * 2))]"
    by simp
  show ?thesis
    by (intro conjI h pi pt pm c fi fc fm ri ai rc ac rm am full eo ae et at q al qp qe ec ei em)
qed

text \<open>
  Claim C3: on a container the program can have, an append (\<open>PushBack\<close>,
  \<open>EmplaceBack\<close>, \<open>Emplace\<close> at any position) that returns leaves the capacity \<open>max(1, size * 2)\<close> when it was called with
  \<open>Size() == Capacity()\<close> and leaves the capacity as it was otherwise. Hence after
  appending the elements \<open>ys\<close> one at a time to an empty container the capacity is \<open>0\<close> if
  \<open>ys\<close> is empty and otherwise the power of two \<open>c\<close> with \<open>c / 2 < length ys \<le> c\<close>:
  the sequence \<open>0, 1, 2, 4, 8, \<dots>\<close>, each step taken by the append that finds the container
  full. When no operation throws and the block an append asks for can be allocated,
  every one of the appends returns, and so does the whole sequence of appends when a
  block of \<open>max(1, 2 * length ys)\<close> slots can be allocated.
\<close>

theorem growth_doubling:
  assumes "holds v xs" and "representable T v"
  shows "(PushBack T x v w = Ok r (v', w') \<longrightarrow>
            Capacity v' = (if Size v = Capacity v then max 1 (Size v * 2) else Capacity v))
    \<and> (PushBack_rvalue T x v w = Ok r (v', w') \<longrightarrow>
            Capacity v' = (if Size v = Capacity v then max 1 (Size v * 2) else Capacity v))
    \<and> (EmplaceBack T a v w = Ok p (v', w') \<longrightarrow>
            Capacity v' = (if Size v = Capacity v then max 1 (Size v * 2) else Capacity v))
    \<and> (pos \<le> Size v \<longrightarrow> Emplace T pos a v w = Ok p (v', w') \<longrightarrow>
            Capacity v' = (if Size v = Capacity v then max 1 (Size v * 2) else Capacity v))
    \<and> (push_all T ys Vector_default w = Ok r (u, w'') \<longrightarrow>
            Size u = length ys
          \<and> (length ys = 0 \<and> Capacity u = 0
             \<or> (\<exists>k. Capacity u = 2 ^ k \<and> length ys \<le> 2 ^ k \<and> 2 ^ k < 2 * length ys)))
    \<and> (schedule w = [] \<longrightarrow> allocatable T (max 1 (length ys * 2)) \<longrightarrow>
          (\<exists>u w''. push_all T ys Vector_default w = Ok () (u, w'')))
    \<and> (schedule w = [] \<longrightarrow> Size v < Capacity v \<or> allocatable T (max 1 (Size v * 2)) \<longrightarrow>
          (\<exists>u w''. PushBack T x v w = Ok () (u, w''))
        \<and> (\<exists>u w''. PushBack_rvalue T x v w = Ok () (u, w''))
        \<and> (\<exists>u w''. EmplaceBack T a v w = Ok (Size v) (u, w''))
        \<and> (pos \<le> Size v \<longrightarrow> (\<exists>u w''. Emplace T pos a v w = Ok pos (u, w''))))"
proof -
  from assms have h: "wellformed T v xs" by (simp add: wellformed_def)
  note c = assms(1)
  from wellformed_allocatable [OF h] have h0: "wellformed T Vector_default []"
    by (intro wellformedI)
      (simp_all add: holds_def Vector_default_def RawMemory_default_def Capacity_def
        allocatable_def)
  have qa: "\<exists>u w''. push_all T ys Vector_default w = Ok () (u, w'')"
    if "schedule w = []" and "allocatable T (max 1 (length ys * 2))"
    using push_all_quiet [OF h0 that(1), of ys] that(2) by auto
  from holdsD [OF c] have sz: "Size v = length xs" by (simp add: Size_def)
  have eb: "Capacity v' = (if Size v = Capacity v then max 1 (Size v * 2) else Capacity v)"
    if "EmplaceBack T b v w = Ok q (v', w')" for b q
    using EmplaceBack_wellformed [OF h that] by (simp add: sz split: if_splits)
  have em: "Capacity v' = (if Size v = Capacity v then max 1 (Size v * 2) else Capacity v)"
    if "pos \<le> Size v" and "Emplace T pos a v w = Ok p (v', w')"
    using Emplace_Ok [OF h _ that(2)] that(1) by (simp add: sz)
  have pa: "Size u = length ys
          \<and> (length ys = 0 \<and> Capacity u = 0
             \<or> (\<exists>k. Capacity u = 2 ^ k \<and> length ys \<le> 2 ^ k \<and> 2 ^ k < 2 * length ys))"
    if run: "push_all T ys Vector_default w = Ok r (u, w'')"
  proof -
    have c0: "length ([] :: 'a list) = 0 \<and> Capacity (Vector_default :: 'a Vector) = 0
         \<or> (\<exists>k. Capacity (Vector_default :: 'a Vector) = 2 ^ k
               \<and> length ([] :: 'a list) \<le> Capacity (Vector_default :: 'a Vector)
               \<and> Capacity (Vector_default :: 'a Vector) < 2 * length ([] :: 'a list))"
      by (simp add: Capacity_def Vector_default_def RawMemory_default_def)
    from push_all_Ok [OF h0 run c0]
    have hu: "wellformed T u ys" and cu: "length ys = 0 \<and> Capacity u = 0
        \<or> (\<exists>k. Capacity u = 2 ^ k \<and> length ys \<le> Capacity u \<and> Capacity u < 2 * length ys)"
      by simp_all
    from holdsD [OF wellformed_holds [OF hu]] have "Size u = length ys" by (simp add: Size_def)
    with cu show ?thesis by auto
  qed
  have aq: "(\<exists>u w''. PushBack T x v w = Ok () (u, w''))
        \<and> (\<exists>u w''. PushBack_rvalue T x v w = Ok () (u, w''))
        \<and> (\<exists>u w''. EmplaceBack T a v w = Ok (Size v) (u, w''))
        \<and> (pos \<le> Size v \<longrightarrow> (\<exists>u w''. Emplace T pos a v w = Ok pos (u, w'')))"
    if q: "schedule w = []" and al: "Size v < Capacity v \<or> allocatable T (max 1 (Size v * 2))"
  proof -
    from al have al': "length xs < Capacity v \<or> allocatable T (max 1 (length xs * 2))"
      by (simp add: sz)
    from PushBack_quiet [OF c q al', of x] have "\<exists>u w''. PushBack T x v w = Ok () (u, w'')"
      by blast
    moreover from PushBack_rvalue_quiet [OF c q al', of x]
    have "\<exists>u w''. PushBack_rvalue T x v w = Ok () (u, w'')"
      by blast
    moreover from EmplaceBack_quiet [OF c q al', of a]
    have "\<exists>u w''. EmplaceBack T a v w = Ok (Size v) (u, w'')"
      by (auto simp: sz)
    moreover have "\<exists>u w''. Emplace T pos a v w = Ok pos (u, w'')" if "pos \<le> Size v"
      using Emplace_quiet [OF c _ q al', of pos a] that by (auto simp: sz)
    ultimately show ?thesis by blast
  qed
  have g1: "PushBack T x v w = Ok r (v', w') \<longrightarrow>
      Capacity v' = (if Size v = Capacity v then max 1 (Size v * 2) else Capacity v)"
    using eb PushBack_OkD [of T x v w r v' w'] by blast
  have g2: "PushBack_rvalue T x v w = Ok r (v', w') \<longrightarrow>
      Capacity v' = (if Size v = Capacity v then max 1 (Size v * 2) else Capacity v)"
    using eb PushBack_rvalue_Ok [OF c, of T x w r v' w'] by blast
  have g3: "EmplaceBack T a v w = Ok p (v', w') \<longrightarrow>
      Capacity v' = (if Size v = Capacity v then max 1 (Size v * 2) else Capacity v)"
    using eb by blast
  have g4: "pos \<le> Size v \<longrightarrow> Emplace T pos a v w = Ok p (v', w') \<longrightarrow>
      Capacity v' = (if Size v = Capacity v then max 1 (Size v * 2) else Capacity v)"
    using em by blast
  have g5: "push_all T ys Vector_default w = Ok r (u, w'') \<longrightarrow>
            Size u = length ys
          \<and> (length ys = 0 \<and> Capacity u = 0
             \<or> (\<exists>k. Capacity u = 2 ^ k \<and> length ys \<le> 2 ^ k \<and> 2 ^ k < 2 * length ys))"
    using pa by (intro impI)
  have g6: "schedule w = [] \<longrightarrow> allocatable T (max 1 (length ys * 2)) \<longrightarrow>
          (\<exists>u w''. push_all T ys Vector_default w = Ok () (u, w''))"
    using qa by (intro impI)
  have g7: "schedule w = [] \<longrightarrow> Size v < Capacity v \<or> allocatable T (max 1 (Size v * 2)) \<longrightarrow>
          (\<exists>u w''. PushBack T x v w = Ok () (u, w''))
        \<and> (\<exists>u w''. PushBack_rvalue T x v w = Ok () (u, w''))
        \<and> (\<exists>u w''. EmplaceBack T a v w = Ok (Size v) (u, w''))
        \<and> (pos \<le> Size v \<longrightarrow> (\<exists>u w''. Emplace T pos a v w = Ok pos (u, w'')))"
    using aq by (intro impI)
  show ?thesis
    by (intro conjI g1 g2 g3 g4 g5 g6 g7)
qed

theorem growth_doubling_witness:
  "holds (vector_of [1, 2] 2) [1, 2 :: int] \<and> representable int_type (vector_of [1, 2] 2)
   \<and> PushBack int_type 3 (vector_of [1, 2] 2) quiet
       = Ok () (vector_of [1, 2, 3] 4,
           \<lparr>schedule = [], log = [Alloc 4, CopyCtor 3, MoveCtor 1, MoveCtor 2, Dtor 1, Dtor 2, Free 2]\<rparr>)
   \<and> Size (vector_of [1, 2 :: int] 2) = Capacity (vector_of [1, 2 :: int] 2)
   \<and> Capacity (vector_of [1, 2, 3 :: int] 4) = max 1 (Size (vector_of [1, 2 :: int] 2) * 2)
   \<and> push_all int_type [1, 2, 3] Vector_default quiet
       = Ok () (vector_of [1, 2, 3] 4,
           \<lparr>schedule = [], log = [Alloc 1, CopyCtor 1, Free 0, Alloc 2, CopyCtor 2, MoveCtor 1,
              Dtor 1, Free 1, Alloc 4, CopyCtor 3, MoveCtor 1, MoveCtor 2, Dtor 1, Dtor 2, Free 2]\<rparr>)
   \<and> Size (vector_of [1, 2, 3 :: int] 4) = length [1, 2, 3 :: int]
   \<and> schedule (quiet :: int world) = []
   \<and> allocatable int_type (max 1 (Size (vector_of [1, 2 :: int] 2) * 2))
   \<and> (\<exists>u w''. PushBack_rvalue int_type 3 (vector_of [1, 2] 2) quiet = Ok () (u, w''))
   \<and> (\<exists>u w''. EmplaceBack int_type (Args 3) (vector_of [1, 2] 2) quiet
         = Ok (Size (vector_of [1, 2 :: int] 2)) (u, w''))
   \<and> (\<exists>u w''. Emplace int_type 1 (Args 3) (vector_of [1, 2] 2) quiet = Ok 1 (u, w''))"
proof -
  let ?v = "vector_of [1, 2 :: int] 2"
  let ?w1 = "\<lparr>schedule = [], log = [Alloc 4, CopyCtor 3, MoveCtor 1, MoveCtor 2, Dtor 1, Dtor 2,
      Free (2 :: nat)]\<rparr> :: int world"
  let ?w2 = "\<lparr>schedule = [], log = [Alloc 1, CopyCtor 1, Free 0, Alloc 2, CopyCtor 2, MoveCtor 1,
      Dtor 1, Free 1, Alloc 4, CopyCtor 3, MoveCtor 1, MoveCtor 2, Dtor 1, Dtor 2, Free (2 :: nat)]\<rparr>
      :: int world"
  have h: "holds ?v [1, 2]" and p: "representable int_type ?v"
    by code_simp+
  have run: "PushBack int_type 3 ?v quiet = Ok () (vector_of [1, 2, 3] 4, ?w1)"
    by code_simp
  have full: "Size ?v = Capacity ?v"
    by (simp add: Size_def Capacity_def vector_of_def)
  have all: "push_all int_type [1, 2, 3] Vector_default quiet = Ok () (vector_of [1, 2, 3] 4, ?w2)"
    by code_simp
  have q: "schedule (quiet :: int world) = []"
    by (simp add: quiet_def)
  have al: "allocatable int_type (max 1 (Size ?v * 2))"
    by code_simp
  have pos: "1 \<le> Size ?v"
    by (simp add: Size_def vector_of_def)
  note t = growth_doubling [OF h p, where x = 3 and w = quiet and r = "()"
      and v' = "vector_of [1, 2, 3] 4" and w' = ?w1 and ys = "[1, 2, 3]"
      and u = "vector_of [1, 2, 3] 4" and w'' = ?w2 and a = "Args 3" and pos = 1]
  from t run full have c: "Capacity (vector_of [1, 2, 3 :: int] 4) = max 1 (Size ?v * 2)"
    by simp
  from t all have s: "Size (vector_of [1, 2, 3 :: int] 4) = length [1, 2, 3 :: int]"
    by blast
  from t q al pos
  have r1: "\<exists>u w''. PushBack_rvalue int_type 3 ?v quiet = Ok () (u, w'')"
    and r2: "\<exists>u w''. EmplaceBack int_type (Args 3) ?v quiet = Ok (Size ?v) (u, w'')"
    and r3: "\<exists>u w''. Emplace int_type 1 (Args 3) ?v quiet = Ok 1 (u, w'')"
    by blast+
  show ?thesis
    by (intro conjI h p run full c all s q al r1 r2 r3)
qed

subsection \<open>Moving from a container\<close>

text \<open>
  Claim C4 says that a container that was moved from, by the move constructor or as the
  right-hand side of a move assignment, has \<open>Size() == 0\<close> and \<open>Capacity() == 0\<close>. Both
  members write \<open>size_(std::move(other.size_))\<close>, which copies the \<open>size_t\<close>: the
  source of a move from a container with three elements reports \<open>Capacity() == 0\<close> and
  still \<open>Size() == 3\<close>.
\<close>

theorem move_keeps_source_size:
  "Vector_move (vector_of [1, 2, 3 :: int] 4)
     = (vector_of [1, 2, 3] 4, \<lparr>m_data = \<lparr>m_buffer = [], m_capacity = 0\<rparr>, m_size = 3\<rparr>)
   \<and> Size (snd (Vector_move (vector_of [1, 2, 3 :: int] 4))) = 3
   \<and> Capacity (snd (Vector_move (vector_of [1, 2, 3 :: int] 4))) = 0
   \<and> Size (snd (move_assign False Vector_default (vector_of [1, 2, 3 :: int] 4))) = 3
   \<and> Capacity (snd (move_assign False Vector_default (vector_of [1, 2, 3 :: int] 4))) = 0"
  by code_simp

text \<open>
  Claim C5 says that every operation keeps \<open>Size() \<le> Capacity()\<close> on every container it
  touches, the source of a move included. The same source of a move has size three and
  capacity zero, and its first three slots are not constructed elements: there is no
  block.
\<close>

theorem move_breaks_invariant:
  "invariant (vector_of [1, 2, 3 :: int] 4)
   \<and> \<not> Size (snd (Vector_move (vector_of [1, 2, 3 :: int] 4)))
        \<le> Capacity (snd (Vector_move (vector_of [1, 2, 3 :: int] 4)))
   \<and> \<not> invariant (snd (Vector_move (vector_of [1, 2, 3 :: int] 4)))
   \<and> \<not> invariant (snd (move_assign False Vector_default (vector_of [1, 2, 3 :: int] 4)))"
  by code_simp

subsection \<open>Copy assignment\<close>

text \<open>
  Claim C6 says that after a successful copy assignment the container holds the elements
  of \<open>rhs\<close> in order. When \<open>rhs\<close> is longer than the container and fits its capacity,
  the header assigns the first \<open>size_\<close> elements and then calls
  \<open>uninitialized_copy_n(rhs.data_.GetAddress(), rhs.size_ - size_, \<dots>)\<close>, which reads
  \<open>rhs\<close> from its first element again instead of from element \<open>size_\<close>: assigning
  \<open>[5, 6, 7, 8]\<close> to a container that holds \<open>[1, 2]\<close> in four slots gives \<open>[5, 6, 5, 6]\<close>.
\<close>

theorem copy_assign_repeats_prefix:
  "holds (vector_of [1, 2] 4) [1, 2 :: int] \<and> holds (vector_of [5, 6, 7, 8] 4) [5, 6, 7, 8 :: int]
   \<and> copy_assign int_type False (vector_of [1, 2] 4) (vector_of [5, 6, 7, 8 :: int] 4) quiet
       = Ok () (vector_of [5, 6, 5, 6] 4,
           \<lparr>schedule = [], log = [CopyAssign 5, CopyAssign 6, CopyCtor 5, CopyCtor 6]\<rparr>)
   \<and> elems (vector_of [5, 6, 5, 6 :: int] 4) = [5, 6, 5, 6]"
  by code_simp

subsection \<open>Reserve\<close>

text \<open>
  Claim C9 says that \<open>Reserve(n)\<close> with \<open>n > Capacity()\<close> leaves \<open>Size()\<close> and the elements
  as they were and sets \<open>Capacity()\<close> to exactly \<open>n\<close>, for every \<open>n\<close>. The header passes
  \<open>n * sizeof(T)\<close>, computed in \<open>size_t\<close>, to \<open>operator new\<close> and nowhere compares \<open>n\<close> with
  a largest size: for \<open>n = 2^62\<close> and \<open>int\<close> (four bytes) the product wraps to \<open>0\<close>, the
  request for no bytes is granted, and the relocation of the two elements of a container
  that holds \<open>[1, 2]\<close> constructs outside the new block, although nothing throws.
\<close>

theorem Reserve_wrapping_request:
  "holds (vector_of [1, 2] 2) [1, 2 :: int]
   \<and> Capacity (vector_of [1, 2 :: int] 2) < 2 ^ 62
   \<and> (2 ^ 62 * size_of int_type) mod SIZE_MOD = 0
   \<and> Allocate int_type (2 ^ 62) quiet = Ok [] \<lparr>schedule = [], log = [Alloc (2 ^ 62)]\<rparr>
   \<and> Reserve int_type (2 ^ 62) (vector_of [1, 2] 2) quiet = UB"
  by code_simp

text \<open>
  Claim C9, amended to requests whose byte count does not wrap: \<open>Reserve(n)\<close> with
  \<open>n \<le> Capacity()\<close> returns and changes nothing, neither the container nor the state of
  the program. For \<open>n > Capacity()\<close> with \<open>n * sizeof(T) < 2^64\<close>, \<open>Reserve(n)\<close> has no
  undefined behaviour, and when it returns it leaves \<open>Size()\<close> and the sequence of
  elements as they were, sets \<open>Capacity()\<close> to exactly \<open>n\<close>, and leaves the container in
  the state the class maintains. When no operation throws and a block of \<open>n\<close> slots can
  be allocated, \<open>Reserve\<close> returns.
\<close>

theorem Reserve_frame:
  assumes "holds v xs"
  shows "(n \<le> Capacity v \<longrightarrow> Reserve T n v w = Ok () (v, w))
    \<and> (Capacity v < n \<longrightarrow> fits T n \<longrightarrow>
          Reserve T n v w \<noteq> UB
        \<and> (Reserve T n v w = Ok r (v', w') \<longrightarrow>
             Size v' = Size v \<and> elems v' = elems v \<and> Capacity v' = n \<and> holds v' xs))
    \<and> (schedule w = [] \<longrightarrow> n \<le> Capacity v \<or> allocatable T n \<longrightarrow>
          (\<exists>u w''. Reserve T n v w = Ok () (u, w'')))"
proof -
  note c = assms
  have g1: "n \<le> Capacity v \<longrightarrow> Reserve T n v w = Ok () (v, w)"
    by (simp add: Reserve_noop)
  have ok: "Size v' = Size v \<and> elems v' = elems v \<and> Capacity v' = n \<and> holds v' xs"
    if gt: "Capacity v < n" and ft: "fits T n" and run: "Reserve T n v w = Ok r (v', w')"
  proof -
    from Reserve_Ok [OF c gt ft run]
    have c': "holds v' xs" and cap: "Capacity v' = n"
      by simp_all
    from holdsD [OF c] holdsD [OF c'] have "Size v' = Size v" by (simp add: Size_def)
    moreover from holds_elems [OF c] holds_elems [OF c'] have "elems v' = elems v" by simp
    ultimately show ?thesis using cap c' by simp
  qed
  have nub: "Reserve T n v w \<noteq> UB" if "fits T n"
    using Reserve_not_UB [OF c, of n T w] that by simp
  have g2: "Capacity v < n \<longrightarrow> fits T n \<longrightarrow>
          Reserve T n v w \<noteq> UB
        \<and> (Reserve T n v w = Ok r (v', w') \<longrightarrow>
             Size v' = Size v \<and> elems v' = elems v \<and> Capacity v' = n \<and> holds v' xs)"
    using ok nub by blast
  have g3: "schedule w = [] \<longrightarrow> n \<le> Capacity v \<or> allocatable T n \<longrightarrow>
          (\<exists>u w''. Reserve T n v w = Ok () (u, w''))"
  proof (intro impI)
    assume q: "schedule w = []" and al: "n \<le> Capacity v \<or> allocatable T n"
    from Reserve_quiet [OF c q al] show "\<exists>u w''. Reserve T n v w = Ok () (u, w'')"
      by blast
  qed
  show ?thesis
    by (intro conjI g1 g2 g3)
qed

theorem Reserve_frame_witness:
  "holds (vector_of [1, 2] 2) [1, 2 :: int]
   \<and> Reserve int_type 1 (vector_of [1, 2] 2) quiet = Ok () (vector_of [1, 2] 2, quiet)
   \<and> Capacity (vector_of [1, 2 :: int] 2) < 7 \<and> fits int_type 7
   \<and> Reserve int_type 7 (vector_of [1, 2] 2) quiet
       = Ok () (vector_of [1, 2] 7,
           \<lparr>schedule = [], log = [Alloc 7, MoveCtor 1, MoveCtor 2, Dtor 1, Dtor 2, Free 2]\<rparr>)
   \<and> Size (vector_of [1, 2 :: int] 7) = Size (vector_of [1, 2 :: int] 2)
   \<and> elems (vector_of [1, 2 :: int] 7) = elems (vector_of [1, 2 :: int] 2)
   \<and> Capacity (vector_of [1, 2 :: int] 7) = 7
   \<and> holds (vector_of [1, 2] 7) [1, 2 :: int]"
proof -
  let ?v = "vector_of [1, 2 :: int] 2"
  let ?w = "\<lparr>schedule = [], log = [Alloc 7, MoveCtor 1, MoveCtor 2, Dtor 1, Dtor 2, Free (2 :: nat)]\<rparr>
      :: int world"
  have h: "holds ?v [1, 2]"
    by code_simp
  have c1: "1 \<le> Capacity ?v" and c7: "Capacity ?v < 7"
    by (simp_all add: Capacity_def vector_of_def)
  have f: "fits int_type 7"
    by code_simp
  have run: "Reserve int_type 7 ?v quiet = Ok () (vector_of [1, 2] 7, ?w)"
    by code_simp
  from Reserve_frame [OF h, of 1 int_type quiet] c1
  have r1: "Reserve int_type 1 ?v quiet = Ok () (?v, quiet)"
    by blast
  from Reserve_frame [OF h, of 7 int_type quiet "()" "vector_of [1, 2] 7" ?w] c7 f run
  have r7: "Size (vector_of [1, 2 :: int] 7) = Size ?v"
    "elems (vector_of [1, 2 :: int] 7) = elems ?v"
    "Capacity (vector_of [1, 2 :: int] 7) = 7"
    "holds (vector_of [1, 2] 7) [1, 2 :: int]"
    by blast+
  show ?thesis
    by (intro conjI h r1 c7 f run r7)
qed

subsection \<open>Resize\<close>

text \<open>
  Claim C7 says that \<open>Resize(n)\<close> with \<open>n > Size()\<close> makes the capacity at least \<open>n\<close>,
  appends \<open>n - size\<close> value-initialised elements and ends with \<open>Size() == n\<close>, for every
  \<open>n\<close>. \<open>Resize\<close> grows through \<open>Reserve(n)\<close>, whose allocation passes \<open>n * sizeof(T)\<close>,
  computed in \<open>size_t\<close>, to \<open>operator new\<close>: for \<open>n = 2^62\<close> and \<open>int\<close> the product wraps
  to \<open>0\<close>, and on a container that holds \<open>[1, 2]\<close> the call constructs outside the block
  it was given, although nothing throws.
\<close>

theorem Resize_wrapping_request:
  "holds (vector_of [1, 2] 2) [1, 2 :: int]
   \<and> Size (vector_of [1, 2 :: int] 2) < 2 ^ 62
   \<and> (2 ^ 62 * size_of int_type) mod SIZE_MOD = 0
   \<and> Resize int_type (2 ^ 62) (vector_of [1, 2] 2) quiet = UB"
  by code_simp

text \<open>
  Claim C7, amended to requests that fit the capacity or whose byte count
  \<open>n * sizeof(T)\<close> does not wrap: a \<open>Resize(n)\<close> that returns leaves \<open>Size() == n\<close> and the
  container in the state the class maintains. If \<open>n > Size()\<close> the capacity is at least
  \<open>n\<close> and the elements are the old ones followed by \<open>n - size\<close> value-initialised
  elements; if \<open>n < Size()\<close> the elements are the first \<open>n\<close> old ones, the capacity is
  unchanged and exactly the trailing \<open>size - n\<close> elements were destroyed; if
  \<open>n == Size()\<close> neither the container nor the state of the program changes. In
  particular \<open>Resize(5)\<close> on a container of \<open>int\<close> holding \<open>[1, 2]\<close> gives
  \<open>[1, 2, 0, 0, 0]\<close> with \<open>Size() == 5\<close>. When no operation throws and \<open>n\<close> fits the
  capacity or a block of \<open>n\<close> slots can be allocated, \<open>Resize\<close> returns.
\<close>

theorem Resize_result:
  assumes "holds v xs" and "n \<le> Capacity v \<or> fits T n"
  shows "(Resize T n v w = Ok r (v', w') \<longrightarrow> Size v' = n \<and> invariant v'
    \<and> (Size v < n \<longrightarrow> n \<le> Capacity v'
          \<and> elems v' = elems v @ replicate (n - Size v) (value_init T))
    \<and> (n < Size v \<longrightarrow> elems v' = take n (elems v) \<and> Capacity v' = Capacity v
          \<and> added w w' = map Dtor (drop n (elems v)))
    \<and> (n = Size v \<longrightarrow> v' = v \<and> w' = w))
    \<and> (schedule w = [] \<longrightarrow> n \<le> Capacity v \<or> allocatable T n \<longrightarrow>
          (\<exists>u w''. Resize T n v w = Ok () (u, w'')))
    \<and> (holds u [1, 2] \<longrightarrow> Resize int_type 5 u w0 = Ok r0 (u', w0') \<longrightarrow>
          Size u' = 5 \<and> elems u' = [1, 2, 0, 0, 0])"
proof -
  note c = assms(1)
  have quiet_run: "\<exists>u w''. Resize T n v w = Ok () (u, w'')"
    if q: "schedule w = []" and al: "n \<le> Capacity v \<or> allocatable T n"
    using Resize_quiet [OF c q al] by blast
  have scenario: "Size u' = 5 \<and> elems u' = [1, 2, 0, 0, 0]"
    if hu: "holds u [1, 2]" and run: "Resize int_type 5 u w0 = Ok r0 (u', w0')"
  proof -
    have "fits int_type 5" by code_simp
    then have "5 \<le> Capacity u \<or> fits int_type 5" ..
    from Resize_Ok [OF hu this run] have c': "holds u' [1, 2, 0, 0, 0]"
      by (simp add: int_type_def numeral_eq_Suc)
    from holdsD [OF this] holds_elems [OF c'] show ?thesis
      by (simp add: Size_def)
  qed
  have main: "Size v' = n \<and> invariant v'
    \<and> (Size v < n \<longrightarrow> n \<le> Capacity v'
          \<and> elems v' = elems v @ replicate (n - Size v) (value_init T))
    \<and> (n < Size v \<longrightarrow> elems v' = take n (elems v) \<and> Capacity v' = Capacity v
          \<and> added w w' = map Dtor (drop n (elems v)))
    \<and> (n = Size v \<longrightarrow> v' = v \<and> w' = w)"
    if run: "Resize T n v w = Ok r (v', w')"
  proof -
    from holdsD [OF c] holds_elems [OF c]
    have sz: "Size v = length xs" and el: "elems v = xs" and le: "length xs \<le> Capacity v"
      by (simp_all add: Size_def)
    from Resize_Ok [OF c assms(2) run]
    have c': "holds v' (take n xs @ replicate (n - length xs) (value_init T))"
      and cap: "Capacity v' = max (Capacity v) n"
      and same: "n = length xs \<longrightarrow> v' = v \<and> w' = w"
      and lg: "n < length xs \<longrightarrow> log w' = log w @ map Dtor (drop n xs)"
      by simp_all
    from holdsD [OF c'] have "Size v' = n"
      by (auto simp: Size_def)
    moreover from c' holds_elems [OF c'] have "invariant v'"
      by (simp add: invariant_def)
    moreover from holds_elems [OF c'] cap
    have "length xs < n \<longrightarrow> n \<le> Capacity v'
            \<and> elems v' = xs @ replicate (n - length xs) (value_init T)"
      by simp
    moreover from holds_elems [OF c'] cap le lg
    have "n < length xs \<longrightarrow> elems v' = take n xs \<and> Capacity v' = Capacity v
            \<and> added w w' = map Dtor (drop n xs)"
      by (auto simp: added_def)
    ultimately show ?thesis
      using same by (simp add: sz el)
  qed
  have g1: "Resize T n v w = Ok r (v', w') \<longrightarrow> Size v' = n \<and> invariant v'
    \<and> (Size v < n \<longrightarrow> n \<le> Capacity v'
          \<and> elems v' = elems v @ replicate (n - Size v) (value_init T))
    \<and> (n < Size v \<longrightarrow> elems v' = take n (elems v) \<and> Capacity v' = Capacity v
          \<and> added w w' = map Dtor (drop n (elems v)))
    \<and> (n = Size v \<longrightarrow> v' = v \<and> w' = w)"
    using main by (intro impI)
  have g2: "schedule w = [] \<longrightarrow> n \<le> Capacity v \<or> allocatable T n \<longrightarrow>
          (\<exists>u w''. Resize T n v w = Ok () (u, w''))"
    using quiet_run by (intro impI)
  have g3: "holds u [1, 2] \<longrightarrow> Resize int_type 5 u w0 = Ok r0 (u', w0') \<longrightarrow>
          Size u' = 5 \<and> elems u' = [1, 2, 0, 0, 0]"
    using scenario by (intro impI)
  show ?thesis
    by (intro conjI g1 g2 g3)
qed

theorem Resize_result_witness:
  "holds (vector_of [1, 2] 2) [1, 2 :: int]
   \<and> (5 \<le> Capacity (vector_of [1, 2 :: int] 2) \<or> fits int_type 5)
   \<and> Resize int_type 5 (vector_of [1, 2] 2) quiet
       = Ok () (vector_of [1, 2, 0, 0, 0] 5,
           \<lparr>schedule = [], log = [Alloc 5, MoveCtor 1, MoveCtor 2, Dtor 1, Dtor 2, Free 2,
              ValueCtor 0, ValueCtor 0, ValueCtor 0]\<rparr>)
   \<and> Size (vector_of [1, 2, 0, 0, 0 :: int] 5) = 5
   \<and> elems (vector_of [1, 2, 0, 0, 0 :: int] 5) = [1, 2, 0, 0, 0]
   \<and> invariant (vector_of [1, 2, 0, 0, 0 :: int] 5)"
proof -
  let ?v = "vector_of [1, 2 :: int] 2"
  let ?w = "\<lparr>schedule = [], log = [Alloc 5, MoveCtor 1, MoveCtor 2, Dtor 1, Dtor 2, Free 2,
              ValueCtor 0, ValueCtor 0, ValueCtor (0 :: int)]\<rparr>"
  have h: "holds ?v [1, 2]"
    by code_simp
  have f: "5 \<le> Capacity ?v \<or> fits int_type 5"
    by code_simp
  have run: "Resize int_type 5 ?v quiet = Ok () (vector_of [1, 2, 0, 0, 0] 5, ?w)"
    by code_simp
  have q: "Size ?v < 5"
    by (simp add: Size_def vector_of_def)
  have e: "elems ?v @ replicate (5 - Size ?v) (value_init int_type) = [1, 2, 0, 0, 0]"
    by code_simp
  from Resize_result [OF h f, of quiet "()" "vector_of [1, 2, 0, 0, 0] 5" ?w] run q
  have s: "Size (vector_of [1, 2, 0, 0, 0 :: int] 5) = 5"
    and i: "invariant (vector_of [1, 2, 0, 0, 0 :: int] 5)"
    and "elems (vector_of [1, 2, 0, 0, 0 :: int] 5)
          = elems ?v @ replicate (5 - Size ?v) (value_init int_type)"
    by blast+
  with e have l: "elems (vector_of [1, 2, 0, 0, 0 :: int] 5) = [1, 2, 0, 0, 0]"
    by simp
  show ?thesis
    by (intro conjI h f run s l i)
qed

subsection \<open>Insert and Erase\<close>

text \<open>
  Claim C8: for a container the program can have, holding \<open>xs\<close>, a position \<open>pos \<le> Size()\<close> and a value \<open>x\<close>, if
  \<open>Insert(pos, x)\<close> returns the position \<open>r\<close> and \<open>Erase(r)\<close> then returns, the container
  holds \<open>xs\<close> again: the same size and the same elements in the same order. This holds
  for both overloads of \<open>Insert\<close>, whether or not the insertion had to grow. When no
  operation throws and the container has room or the block a growing insertion asks for
  can be allocated, either overload of \<open>Insert(pos, x)\<close> returns \<open>pos\<close> and \<open>Erase(pos)\<close>
  returns after it.
\<close>

theorem Insert_Erase_roundtrip:
  assumes "holds v xs" and "representable T v" and "pos \<le> Size v"
  shows "(Insert T pos x v w = Ok r (v1, w1) \<longrightarrow> Erase T r v1 w1 = Ok r' (v2, w2) \<longrightarrow>
            Size v2 = Size v \<and> elems v2 = elems v \<and> holds v2 xs)
    \<and> (Insert_rvalue T pos x v w = Ok r (v1, w1) \<longrightarrow> Erase T r v1 w1 = Ok r' (v2, w2) \<longrightarrow>
            Size v2 = Size v \<and> elems v2 = elems v \<and> holds v2 xs)
    \<and> (schedule w = [] \<longrightarrow> Size v < Capacity v \<or> allocatable T (max 1 (Size v * 2)) \<longrightarrow>
          (\<exists>u1 w1' u2 w2'. Insert T pos x v w = Ok pos (u1, w1')
              \<and> Erase T pos u1 w1' = Ok pos (u2, w2'))
        \<and> (\<exists>u1 w1' u2 w2'. Insert_rvalue T pos x v w = Ok pos (u1, w1')
              \<and> Erase T pos u1 w1' = Ok pos (u2, w2')))"
proof -
  from assms(1,2) have h: "wellformed T v xs" by (simp add: wellformed_def)
  note c = assms(1)
  from holdsD [OF c] assms(3) have pos: "pos \<le> length xs" and sz: "Size v = length xs"
    by (simp_all add: Size_def)
  have rt: "Size v2 = Size v \<and> elems v2 = elems v \<and> holds v2 xs"
    if ins: "Emplace T pos a v w = Ok r (v1, w1)" and era: "Erase T r v1 w1 = Ok r' (v2, w2)"
    and a: "arg_value a = x" for a
  proof -
    from Emplace_Ok [OF h pos ins] a
    have h1: "wellformed T v1 (take pos xs @ x # drop pos xs)" and r: "r = pos"
      by simp_all
    from pos have lt: "pos < length (take pos xs @ x # drop pos xs)" by simp
    from Erase_Ok [OF wellformed_holds [OF h1] lt era [unfolded r]] pos have h2: "holds v2 xs"
      by (simp add: min_absorb2)
    from holdsD [OF h2] holdsD [OF c] holds_elems [OF h2] holds_elems [OF c] h2
    show ?thesis by (simp add: Size_def)
  qed
  have qr: "\<exists>u1 w1' u2 w2'. Emplace T pos a v w = Ok pos (u1, w1')
              \<and> Erase T pos u1 w1' = Ok pos (u2, w2')"
    if q: "schedule w = []" and al: "Size v < Capacity v \<or> allocatable T (max 1 (Size v * 2))"
    for a
  proof -
    from al have al': "length xs < Capacity v \<or> allocatable T (max 1 (length xs * 2))"
      by (simp add: sz)
    from Emplace_quiet [OF c pos q al', of a] obtain u1 w1' where
      ins: "Emplace T pos a v w = Ok pos (u1, w1')" and q1: "schedule w1' = []"
      by blast
    from Emplace_Ok [OF h pos ins]
    have h1: "wellformed T u1 (take pos xs @ arg_value a # drop pos xs)"
      by simp
    from pos have lt: "pos < length (take pos xs @ arg_value a # drop pos xs)" by simp
    from Erase_quiet [OF wellformed_holds [OF h1] lt q1, of T] ins show ?thesis
      by auto
  qed
  have g1: "Insert T pos x v w = Ok r (v1, w1) \<longrightarrow> Erase T r v1 w1 = Ok r' (v2, w2) \<longrightarrow>
            Size v2 = Size v \<and> elems v2 = elems v \<and> holds v2 xs"
    using rt [of "ByCopy x"] by (simp add: Insert_def)
  have g2: "Insert_rvalue T pos x v w = Ok r (v1, w1) \<longrightarrow> Erase T r v1 w1 = Ok r' (v2, w2) \<longrightarrow>
            Size v2 = Size v \<and> elems v2 = elems v \<and> holds v2 xs"
    using rt [of "ByMove x"] by (simp add: Insert_rvalue_def)
  have g3: "schedule w = [] \<longrightarrow> Size v < Capacity v \<or> allocatable T (max 1 (Size v * 2)) \<longrightarrow>
          (\<exists>u1 w1' u2 w2'. Insert T pos x v w = Ok pos (u1, w1')
              \<and> Erase T pos u1 w1' = Ok pos (u2, w2'))
        \<and> (\<exists>u1 w1' u2 w2'. Insert_rvalue T pos x v w = Ok pos (u1, w1')
              \<and> Erase T pos u1 w1' = Ok pos (u2, w2'))"
    using qr [of "ByCopy x"] qr [of "ByMove x"]
    unfolding Insert_def Insert_rvalue_def by (intro impI conjI)
  show ?thesis
    by (intro conjI g1 g2 g3)
qed

theorem Insert_Erase_roundtrip_witness:
  "holds (vector_of [10, 20, 30] 3) [10, 20, 30 :: int]
   \<and> representable int_type (vector_of [10, 20, 30] 3)
   \<and> 1 \<le> Size (vector_of [10, 20, 30 :: int] 3)
   \<and> Insert int_type 1 99 (vector_of [10, 20, 30] 3) quiet
       = Ok 1 (vector_of [10, 99, 20, 30] 6,
           \<lparr>schedule = [], log = [Alloc 6, CopyCtor 99, MoveCtor 10, MoveCtor 20, MoveCtor 30,
              Dtor 10, Dtor 20, Dtor 30, Free 3]\<rparr>)
   \<and> Erase int_type 1 (vector_of [10, 99, 20, 30] 6)
        \<lparr>schedule = [], log = [Alloc 6, CopyCtor 99, MoveCtor 10, MoveCtor 20, MoveCtor 30,
              Dtor 10, Dtor 20, Dtor 30, Free 3]\<rparr>
       = Ok 1 (vector_of [10, 20, 30] 6,
           \<lparr>schedule = [], log = [Alloc 6, CopyCtor 99, MoveCtor 10, MoveCtor 20, MoveCtor 30,
              Dtor 10, Dtor 20, Dtor 30, Free 3, MoveAssign 20, MoveAssign 30, Dtor 30]\<rparr>)
   \<and> elems (vector_of [10, 20, 30 :: int] 6) = elems (vector_of [10, 20, 30 :: int] 3)
   \<and> Size (vector_of [10, 20, 30 :: int] 6) = Size (vector_of [10, 20, 30 :: int] 3)
   \<and> holds (vector_of [10, 20, 30] 6) [10, 20, 30 :: int]
   \<and> schedule (quiet :: int world) = []
   \<and> allocatable int_type (max 1 (Size (vector_of [10, 20, 30 :: int] 3) * 2))
   \<and> (\<exists>u1 w1' u2 w2'. Insert_rvalue int_type 1 99 (vector_of [10, 20, 30] 3) quiet = Ok 1 (u1, w1')
          \<and> Erase int_type 1 u1 w1' = Ok 1 (u2, w2'))"
proof -
  let ?v = "vector_of [10, 20, 30 :: int] 3"
  let ?w1 = "\<lparr>schedule = [], log = [Alloc 6, CopyCtor 99, MoveCtor 10, MoveCtor 20, MoveCtor 30,
              Dtor 10, Dtor 20, Dtor 30, Free (3 :: nat)]\<rparr> :: int world"
  let ?w2 = "\<lparr>schedule = [], log = [Alloc 6, CopyCtor 99, MoveCtor 10, MoveCtor 20, MoveCtor 30,
              Dtor 10, Dtor 20, Dtor 30, Free 3, MoveAssign 20, MoveAssign 30, Dtor 30]\<rparr> :: int world"
  have h: "holds ?v [10, 20, 30]" and rp: "representable int_type ?v"
    by code_simp+
  have p: "1 \<le> Size ?v"
    by (simp add: Size_def vector_of_def)
  have ins: "Insert int_type 1 99 ?v quiet = Ok 1 (vector_of [10, 99, 20, 30] 6, ?w1)"
    by code_simp
  have era: "Erase int_type 1 (vector_of [10, 99, 20, 30] 6) ?w1
       = Ok 1 (vector_of [10, 20, 30] 6, ?w2)"
    by code_simp
  have q: "schedule (quiet :: int world) = []"
    by (simp add: quiet_def)
  have al: "allocatable int_type (max 1 (Size ?v * 2))"
    by code_simp
  note t = Insert_Erase_roundtrip [OF h rp p, of 99 quiet 1 "vector_of [10, 99, 20, 30] 6" ?w1
      1 "vector_of [10, 20, 30] 6" ?w2]
  from t ins era
  have r: "elems (vector_of [10, 20, 30 :: int] 6) = elems ?v"
    "Size (vector_of [10, 20, 30 :: int] 6) = Size ?v"
    "holds (vector_of [10, 20, 30] 6) [10, 20, 30 :: int]"
    by blast+
  from t q al
  have m: "\<exists>u1 w1' u2 w2'. Insert_rvalue int_type 1 99 ?v quiet = Ok 1 (u1, w1')
          \<and> Erase int_type 1 u1 w1' = Ok 1 (u2, w2')"
    by blast
  show ?thesis
    by (intro conjI h rp p ins era r q al m)
qed

text \<open>
  Claim C10: for a container with at least one element and a position \<open>pos < Size()\<close>, an
  \<open>Erase(pos)\<close> that returns gives back the offset \<open>pos\<close>. If an element followed the erased
  one, the result now refers to it: reading the result after the call gives what reading
  \<open>pos + 1\<close> gave before. If the last element was erased, the result is the new \<open>end()\<close>.
  When no operation throws, \<open>Erase(pos)\<close> returns.
\<close>

theorem Erase_returns_position:
  assumes "holds v xs" and "pos < Size v"
  shows "(Erase T pos v w = Ok r (v', w') \<longrightarrow>
            r = pos
          \<and> (Suc pos < Size v \<longrightarrow> at v' r = at v (Suc pos) \<and> at v' r = Some (xs ! Suc pos))
          \<and> (Suc pos = Size v \<longrightarrow> r = Size v'))
    \<and> (schedule w = [] \<longrightarrow> (\<exists>u w''. Erase T pos v w = Ok pos (u, w'')))"
proof (intro conjI impI)
  note c = assms(1)
  from holdsD [OF c] assms(2) have pos: "pos < length xs" and sz: "Size v = length xs"
    by (simp_all add: Size_def)
  {
    assume "schedule w = []"
    with Erase_quiet [OF c pos, of w T] show "\<exists>u w''. Erase T pos v w = Ok pos (u, w'')"
      by blast
  }
  assume run: "Erase T pos v w = Ok r (v', w')"
  from Erase_Ok [OF c pos run]
  have h': "holds v' (take pos xs @ drop (Suc pos) xs)" and r: "r = pos"
    by simp_all
  from holdsD [OF h'] pos have sz': "Size v' = length xs - 1"
    by (simp add: Size_def)
  from r show "r = pos" .
  {
    assume "Suc pos < Size v"
    then have lt: "Suc pos < length xs" by (simp add: sz)
    with holds_at [OF h', of pos] holds_at [OF c, of "Suc pos"]
    have "at v' pos = Some (xs ! Suc pos)" and "at v (Suc pos) = Some (xs ! Suc pos)"
      by (simp_all add: nth_append)
    with r show "at v' r = at v (Suc pos)" and "at v' r = Some (xs ! Suc pos)"
      by simp_all
  }
  assume "Suc pos = Size v"
  with r sz sz' show "r = Size v'" by simp
qed

theorem Erase_returns_position_witness:
  "holds (vector_of [1, 2, 3] 4) [1, 2, 3 :: int] \<and> 0 < Size (vector_of [1, 2, 3 :: int] 4)
   \<and> Erase int_type 0 (vector_of [1, 2, 3] 4) quiet
       = Ok 0 (vector_of [2, 3] 4, \<lparr>schedule = [], log = [MoveAssign 2, MoveAssign 3, Dtor 3]\<rparr>)
   \<and> at (vector_of [2, 3 :: int] 4) 0 = Some 2"
proof -
  have h: "holds (vector_of [1, 2, 3] 4) [1, 2, 3 :: int]"
    by (simp add: holds_vector_of)
  have p: "0 < Size (vector_of [1, 2, 3 :: int] 4)"
    by (simp add: Size_def vector_of_def)
  have run: "Erase int_type 0 (vector_of [1, 2, 3] 4) quiet
       = Ok 0 (vector_of [2, 3] 4, \<lparr>schedule = [], log = [MoveAssign 2, MoveAssign 3, Dtor 3]\<rparr>)"
    by code_simp
  have q: "Suc 0 < Size (vector_of [1, 2, 3 :: int] 4)"
    by (simp add: Size_def vector_of_def)
  from Erase_returns_position [OF h p, of int_type quiet 0 "vector_of [2, 3] 4"
      "\<lparr>schedule = [], log = [MoveAssign 2, MoveAssign 3, Dtor 3]\<rparr>"] run q
  have "at (vector_of [2, 3 :: int] 4) 0 = Some ([1, 2, 3] ! Suc 0)"
    by blast
  then have "at (vector_of [2, 3 :: int] 4) 0 = Some 2"
    by simp
  with h p run show ?thesis by blast
qed

end
